theory Spec2Isabelle
  imports Main "HOL-Library.Sublist"
begin

section \<open>Python run-time model\<close>

text \<open>
  The notebook is Python 2. Integers are unbounded (\<open>int\<close>), lists are HOL lists, and the
  only exception its code can raise is the \<open>IndexError\<close> of list indexing; no function of
  the notebook has a \<open>raise\<close> statement. A call returns \<open>Inr\<close> of its value or \<open>Inl\<close> of
  the exception.
\<close>

datatype error = IndexError

definition bind_err :: "error + 'a \<Rightarrow> ('a \<Rightarrow> error + 'b) \<Rightarrow> error + 'b" where
  "bind_err m f = (case m of Inl e \<Rightarrow> Inl e | Inr x \<Rightarrow> f x)"

text \<open>\<open>xs[i]\<close>: an index in \<open>[-len, 0)\<close> counts from the end, anything outside
  \<open>[-len, len)\<close> raises.\<close>

definition py_index :: "'a list \<Rightarrow> int \<Rightarrow> error + 'a" where
  "py_index xs i =
     (if 0 \<le> i \<and> i < int (length xs) then Inr (xs ! nat i)
      else if - int (length xs) \<le> i \<and> i < 0 then Inr (xs ! nat (int (length xs) + i))
      else Inl IndexError)"

text \<open>\<open>xs[i] = a\<close>, with the same index rule.\<close>

definition py_store :: "'a list \<Rightarrow> int \<Rightarrow> 'a \<Rightarrow> error + 'a list" where
  "py_store xs i a =
     (if 0 \<le> i \<and> i < int (length xs) then Inr (xs[nat i := a])
      else if - int (length xs) \<le> i \<and> i < 0 then Inr (xs[nat (int (length xs) + i) := a])
      else Inl IndexError)"

text \<open>\<open>range(a, b)\<close> is \<open>[a..b - 1]\<close>, empty when \<open>b \<le> a\<close>; \<open>range(n)\<close> is \<open>range(0, n)\<close>.\<close>

definition py_range :: "int \<Rightarrow> int \<Rightarrow> int list" where
  "py_range a b = [a..b - 1]"

text \<open>\<open>for i in is: s = body(i, s)\<close>, stopping at the first exception.\<close>

fun for_loop :: "'i list \<Rightarrow> ('i \<Rightarrow> 's \<Rightarrow> error + 's) \<Rightarrow> 's \<Rightarrow> error + 's" where
  "for_loop [] body s = Inr s"
| "for_loop (i # is) body s = bind_err (body i s) (for_loop is body)"

section \<open>Fibonacci numbers\<close>

text \<open>
  \<^verbatim>\<open>
  def fib(n):
      if n == 0: return 0
      if n == 1: return 1
      return fib(n - 1) + fib(n - 2)
  \<close>
  On a negative argument the recursion never reaches a base case; \<open>None\<close> is "does not
  return". The interpreter's recursion limit and the running time are left out of the
  model.
\<close>

partial_function (option) fib :: "int \<Rightarrow> int option" where
  "fib n =
     (if n = 0 then Some 0
      else if n = 1 then Some 1
      else Option.bind (fib (n - 1)) (\<lambda>a. Option.bind (fib (n - 2)) (\<lambda>b. Some (a + b))))"

declare fib.simps [code]

text \<open>
  \<^verbatim>\<open>
  def all_fib(n):
      fibs = []
      for i in range(n):
          fibs.append(fib(i))
      return fibs
  \<close>
\<close>

fun all_fib_loop :: "int list \<Rightarrow> int list \<Rightarrow> int list option" where
  "all_fib_loop [] fibs = Some fibs"
| "all_fib_loop (i # is) fibs = Option.bind (fib i) (\<lambda>f. all_fib_loop is (fibs @ [f]))"

definition all_fib :: "int \<Rightarrow> int list option" where
  "all_fib n = all_fib_loop (py_range 0 n) []"

text \<open>
  \<^verbatim>\<open>
  def all_fib_dp(n):
      fibs = []
      for i in range(n):
          if i < 2:
              fibs.append(i)
          else:
              fibs.append(fibs[i - 2] + fibs[i - 1])
      return fibs
  \<close>
\<close>

definition all_fib_dp_body :: "int \<Rightarrow> int list \<Rightarrow> error + int list" where
  "all_fib_dp_body i fibs =
     (if i < 2 then Inr (fibs @ [i])
      else bind_err (py_index fibs (i - 2)) (\<lambda>a.
           bind_err (py_index fibs (i - 1)) (\<lambda>b.
           Inr (fibs @ [a + b]))))"

definition all_fib_dp :: "int \<Rightarrow> error + int list" where
  "all_fib_dp n = for_loop (py_range 0 n) all_fib_dp_body []"

text \<open>The mathematical sequence \<open>F\<^sub>0 = 0\<close>, \<open>F\<^sub>1 = 1\<close>, \<open>F\<^sub>k = F\<^sub>k\<^sub>-\<^sub>1 + F\<^sub>k\<^sub>-\<^sub>2\<close>, the
  yardstick for both generators.\<close>

fun fib_ref :: "nat \<Rightarrow> int" where
  "fib_ref 0 = 0"
| "fib_ref (Suc 0) = 1"
| "fib_ref (Suc (Suc k)) = fib_ref (Suc k) + fib_ref k"

section \<open>Longest increasing subsequence\<close>

text \<open>
  The working variables of \<open>find_lis\<close>. The source's list \<open>length\<close> is \<open>length_tab\<close> here,
  as \<open>length\<close> is the length of a HOL list.
\<close>

record lis_state =
  prev :: "int list"
  length_tab :: "int list"
  max_length :: int
  best_seq_end :: int

text \<open>
  The body of the scan over \<open>j\<close>:
  \<^verbatim>\<open>
  if (length[j] + 1) > length[i] and seq[j] < seq[i]:
      length[i] = length[j] + 1
      prev[i] = j
  \<close>
  \<open>and\<close> evaluates its right operand only when the left one holds.
\<close>

definition find_lis_inner :: "'a::linorder list \<Rightarrow> int \<Rightarrow> int \<Rightarrow> lis_state \<Rightarrow> error + lis_state" where
  "find_lis_inner seq i j s =
     bind_err (py_index (length_tab s) j) (\<lambda>lj.
     bind_err (py_index (length_tab s) i) (\<lambda>li.
     if lj + 1 > li then
       bind_err (py_index seq j) (\<lambda>sj.
       bind_err (py_index seq i) (\<lambda>si.
       if sj < si then
         bind_err (py_index (length_tab s) j) (\<lambda>lj'.
         bind_err (py_store (length_tab s) i (lj' + 1)) (\<lambda>length'.
         bind_err (py_store (prev s) i j) (\<lambda>prev'.
         Inr (s\<lparr>prev := prev', length_tab := length'\<rparr>))))
       else Inr s))
     else Inr s))"

text \<open>
  The body of the loop over \<open>i\<close>:
  \<^verbatim>\<open>
  length[i] = 0
  prev[i] = -1
  # start from index i-1 and work back to 0
  for j in range(i - 1, -1, -1):
      ...
  if length[i] > max_length:
      max_length = length[i]
      best_seq_end = i
  \<close>
  \<open>range(i - 1, -1, -1)\<close> is \<open>range(0, i)\<close> backwards.
\<close>

definition find_lis_outer :: "'a::linorder list \<Rightarrow> int \<Rightarrow> lis_state \<Rightarrow> error + lis_state" where
  "find_lis_outer seq i s =
     bind_err (py_store (length_tab s) i 0) (\<lambda>length'.
     bind_err (py_store (prev s) i (- 1)) (\<lambda>prev'.
     bind_err (for_loop (rev (py_range 0 i)) (find_lis_inner seq i)
                 (s\<lparr>prev := prev', length_tab := length'\<rparr>)) (\<lambda>s'.
     bind_err (py_index (length_tab s') i) (\<lambda>li.
     if li > max_length s' then
       bind_err (py_index (length_tab s') i) (\<lambda>li'.
       Inr (s'\<lparr>max_length := li', best_seq_end := i\<rparr>))
     else Inr s'))))"

text \<open>
  The tables once the loop over \<open>i\<close> has run:
  \<^verbatim>\<open>
  n = len(seq)
  max_length = 1
  best_seq_end = -1
  prev = [0 for i in range(n)]
  prev[0] = -1
  length = [0 for i in range(n)]
  length[0] = 1
  for i in range(1, n):
      ...
  \<close>
\<close>

definition find_lis_tables :: "'a::linorder list \<Rightarrow> error + lis_state" where
  "find_lis_tables seq =
     (let n = int (length seq) in
      bind_err (py_store (map (\<lambda>i. 0) (py_range 0 n)) 0 (- 1)) (\<lambda>prev0.
      bind_err (py_store (map (\<lambda>i. 0) (py_range 0 n)) 0 1) (\<lambda>length0.
      for_loop (py_range 1 n) (find_lis_outer seq)
        \<lparr>prev = prev0, length_tab = length0, max_length = 1, best_seq_end = - 1\<rparr>)))"

text \<open>
  \<^verbatim>\<open>
  while element != -1:
      lis.append(seq[element])
      element = prev[element]
  \<close>
  Nothing in the loop itself bounds the number of rounds, so \<open>None\<close> is "does not return".
\<close>

partial_function (option) recover :: "'a list \<Rightarrow> int list \<Rightarrow> int \<Rightarrow> 'a list \<Rightarrow> (error + 'a list) option" where
  "recover seq prv element lis =
     (if element \<noteq> - 1 then
        (case py_index seq element of
           Inl e \<Rightarrow> Some (Inl e)
         | Inr a \<Rightarrow>
             (case py_index prv element of
                Inl e \<Rightarrow> Some (Inl e)
              | Inr p \<Rightarrow> recover seq prv p (lis @ [a])))
      else Some (Inr lis))"

declare recover.simps [code]

text \<open>
  \<^verbatim>\<open>
  def find_lis(seq):
      ...
      lis = []
      element = best_seq_end
      while element != -1: ...
      return lis[::-1]
  \<close>
\<close>

definition find_lis :: "'a::linorder list \<Rightarrow> (error + 'a list) option" where
  "find_lis seq =
     (case find_lis_tables seq of
        Inl e \<Rightarrow> Some (Inl e)
      | Inr s \<Rightarrow> map_option (map_sum id rev) (recover seq (prev s) (best_seq_end s) []))"

subsection \<open>Specification of the tables\<close>

text \<open>
  One round of the scan over \<open>j\<close>, seen on the pair \<open>(length[i], prev[i])\<close> alone; \<open>L\<close> is the
  table of the lengths at the indices below \<open>i\<close>, which the scan only reads.
\<close>

definition scan_step :: "'a::linorder list \<Rightarrow> int list \<Rightarrow> nat \<Rightarrow> nat \<Rightarrow> int \<times> int \<Rightarrow> int \<times> int" where
  "scan_step seq L i j lp =
     (if L ! j + 1 > fst lp \<and> seq ! j < seq ! i then (L ! j + 1, int j) else lp)"

text \<open>
  What the scan leaves at index \<open>i\<close>. With no smaller element before \<open>i\<close> the entry is
  \<open>(0, -1)\<close>. Otherwise \<open>p\<close> is a predecessor \<open>q\<close> of greatest tabulated length among the
  smaller elements before \<open>i\<close>, and of those of greatest length the one of largest index;
  \<open>l\<close> is its length plus one.
\<close>

definition keeps_last_best :: "'a::linorder list \<Rightarrow> int list \<Rightarrow> nat \<Rightarrow> int \<Rightarrow> int \<Rightarrow> bool" where
  "keeps_last_best seq L i l p \<longleftrightarrow>
     (if \<forall>j<i. \<not> seq ! j < seq ! i then l = 0 \<and> p = - 1
      else \<exists>q<i. p = int q \<and> seq ! q < seq ! i \<and> l = L ! q + 1
             \<and> (\<forall>j<i. seq ! j < seq ! i \<longrightarrow> L ! j \<le> L ! q)
             \<and> (\<forall>j<i. q < j \<longrightarrow> seq ! j < seq ! i \<longrightarrow> L ! j < L ! q))"

text \<open>The invariant of the loop over \<open>i\<close>, when the indices below \<open>m\<close> are done.\<close>

definition lis_inv :: "'a::linorder list \<Rightarrow> nat \<Rightarrow> lis_state \<Rightarrow> bool" where
  "lis_inv seq m s \<longleftrightarrow>
     length (prev s) = length seq \<and> length (length_tab s) = length seq
     \<and> prev s ! 0 = - 1 \<and> length_tab s ! 0 = 1
     \<and> (\<forall>i<m. 0 \<le> length_tab s ! i)
     \<and> (\<forall>i<m. 1 \<le> i \<longrightarrow> keeps_last_best seq (length_tab s) i (length_tab s ! i) (prev s ! i))
     \<and> 1 \<le> max_length s
     \<and> (best_seq_end s = - 1
        \<or> (\<exists>b<m. 1 \<le> b \<and> best_seq_end s = int b \<and> 2 \<le> length_tab s ! b))"

text \<open>
  The reference the result is measured against: the greatest length of a strictly
  increasing subsequence of the input, by enumeration of all subsequences.
\<close>

definition lis_length_ref :: "'a::linorder list \<Rightarrow> nat" where
  "lis_length_ref seq = Max (set (map length (filter (sorted_wrt (<)) (subseqs seq))))"

section \<open>0-1 knapsack\<close>

text \<open>
  \<open>S[k][x]\<close> and \<open>S[k][x] = a\<close> on the list of rows. The rows are built by a comprehension,
  one fresh list per \<open>k\<close>, so a store into row \<open>k\<close> changes no other row; the model writes the
  changed row back at \<open>k\<close>.
\<close>

definition py_index2 :: "'a list list \<Rightarrow> int \<Rightarrow> int \<Rightarrow> error + 'a" where
  "py_index2 S k x = bind_err (py_index S k) (\<lambda>row. py_index row x)"

definition py_store2 :: "'a list list \<Rightarrow> int \<Rightarrow> int \<Rightarrow> 'a \<Rightarrow> error + 'a list list" where
  "py_store2 S k x a =
     bind_err (py_index S k) (\<lambda>row. bind_err (py_store row x a) (\<lambda>row'. py_store S k row'))"

text \<open>
  The body of the loop over \<open>k\<close>:
  \<^verbatim>\<open>
  S[k][x] = S[k-1][x]
  if w[k] < x and S[k-1][x-w[k]] + v[k] > S[k][x]:
      S[k][x] = S[k-1][x-w[k]] + v[k]
  \<close>
\<close>

definition knapsack_cell :: "int list \<Rightarrow> int list \<Rightarrow> int \<Rightarrow> int \<Rightarrow> int list list \<Rightarrow> error + int list list" where
  "knapsack_cell w v x k S =
     bind_err (py_index2 S (k - 1) x) (\<lambda>base.
     bind_err (py_store2 S k x base) (\<lambda>S1.
     bind_err (py_index w k) (\<lambda>wk.
     if wk < x then
       bind_err (py_index S1 (k - 1)) (\<lambda>above.
       bind_err (py_index w k) (\<lambda>wk1.
       bind_err (py_index above (x - wk1)) (\<lambda>a.
       bind_err (py_index v k) (\<lambda>vk.
       bind_err (py_index2 S1 k x) (\<lambda>cur.
       if a + vk > cur then
         bind_err (py_index S1 (k - 1)) (\<lambda>above2.
         bind_err (py_index w k) (\<lambda>wk2.
         bind_err (py_index above2 (x - wk2)) (\<lambda>a2.
         bind_err (py_index v k) (\<lambda>vk2.
         py_store2 S1 k x (a2 + vk2)))))
       else Inr S1)))))
     else Inr S1)))"

text \<open>
  \<^verbatim>\<open>
  def knapsack(W, w, v):
      n = len(v)
      S = [[0 for x in range(W)] for k in range(n)]
      for x in range(1, W):
          for k in range(1, n):
              ...
      return S
  \<close>
\<close>

definition knapsack :: "int \<Rightarrow> int list \<Rightarrow> int list \<Rightarrow> error + int list list" where
  "knapsack W w v =
     (let n = int (length v);
          S = map (\<lambda>k. map (\<lambda>x. 0) (py_range 0 W)) (py_range 0 n)
      in for_loop (py_range 1 W) (\<lambda>x. for_loop (py_range 1 n) (knapsack_cell w v x)) S)"

subsection \<open>Specification of the value table\<close>

text \<open>
  The recurrence the loops fill the table by, as a function of the row \<open>k\<close> and the column
  \<open>x\<close>: row 0 and column 0 are 0, and a later cell is the cell above it or, when the
  weight of item \<open>k\<close> is strictly less than \<open>x\<close> and it is strictly better, the value of
  item \<open>k\<close> added to the cell above at column \<open>x - w[k]\<close>.
\<close>

fun knap_ref :: "int list \<Rightarrow> int list \<Rightarrow> nat \<Rightarrow> nat \<Rightarrow> int" where
  "knap_ref w v 0 x = 0"
| "knap_ref w v (Suc k) x =
     (if x = 0 then 0
      else if w ! Suc k < int x
              \<and> knap_ref w v k (nat (int x - w ! Suc k)) + v ! Suc k > knap_ref w v k x
           then knap_ref w v k (nat (int x - w ! Suc k)) + v ! Suc k
           else knap_ref w v k x)"

text \<open>
  The invariant of the two loops, for a table of \<open>n\<close> rows and \<open>m\<close> columns: the columns
  below \<open>x\<close> and the rows below \<open>k\<close> of column \<open>x\<close> are filled, the other cells still 0.
\<close>

definition tab_inv :: "int list \<Rightarrow> int list \<Rightarrow> nat \<Rightarrow> nat \<Rightarrow> nat \<Rightarrow> nat \<Rightarrow> int list list \<Rightarrow> bool" where
  "tab_inv w v n m x k S \<longleftrightarrow>
     length S = n \<and> (\<forall>r<n. length (S ! r) = m)
     \<and> (\<forall>r<n. \<forall>c<m. S ! r ! c = (if c < x \<or> (c = x \<and> r < k) then knap_ref w v r c else 0))"

text \<open>
  The reference the bottom-right cell is measured against: the greatest total value of a
  set of items of total weight at most \<open>c\<close>, by enumeration of all sets of items; an item
  is the pair of its weight and its value.
\<close>

definition best_value :: "int \<Rightarrow> (int \<times> int) list \<Rightarrow> int" where
  "best_value c items =
     Max (set (map (\<lambda>sub. sum_list (map snd sub))
                (filter (\<lambda>sub. sum_list (map fst sub) \<le> c) (subseqs items))))"

text \<open>Index 0 is the boundary "no item" row, so the items are those of index 1 and above.\<close>

definition brute_force_optimum :: "int \<Rightarrow> int list \<Rightarrow> int list \<Rightarrow> int" where
  "brute_force_optimum W w v = best_value W (drop 1 (zip w v))"

section \<open>The run-time model: basic facts\<close>

lemma upto_map_int: "[int a..int b - 1] = map int [a..<b]"
  by (rule nth_equalityI) (auto simp: nth_upto)

lemma py_range_nat: "0 \<le> a \<Longrightarrow> py_range a n = map int [nat a..<nat n]"
  unfolding py_range_def using upto_map_int[of "nat a" "nat n"]
  by (cases "0 \<le> n") auto

lemma py_zeros: "map (\<lambda>i. 0::int) (py_range 0 (int n)) = replicate n 0"
  by (simp add: py_range_nat map_replicate_const)

lemma for_loop_append:
  "for_loop (xs @ ys) body s = bind_err (for_loop xs body s) (for_loop ys body)"
  by (induction xs arbitrary: s) (auto simp: bind_err_def split: sum.splits)

lemma py_index_nat: "k < length xs \<Longrightarrow> py_index xs (int k) = Inr (xs ! k)"
  by (simp add: py_index_def)

lemma py_store_nat: "k < length xs \<Longrightarrow> py_store xs (int k) a = Inr (xs[k := a])"
  by (simp add: py_store_def)

section \<open>Fibonacci: both generators compute the Fibonacci sequence\<close>

lemma fib_int: "fib (int k) = Some (fib_ref k)"
proof (induction k rule: fib_ref.induct)
  case 1
  show ?case by (subst fib.simps) simp
next
  case 2
  show ?case by (subst fib.simps) simp
next
  case (3 k)
  have a: "int (Suc (Suc k)) - 1 = int (Suc k)" and b: "int (Suc (Suc k)) - 2 = int k"
    by simp_all
  show ?case
    by (subst fib.simps) (simp only: a b 3, simp)
qed

lemma all_fib_loop_map:
  "all_fib_loop (map int ks) fibs = Some (fibs @ map fib_ref ks)"
  by (induction ks arbitrary: fibs) (simp_all add: fib_int)

lemma all_fib_eq: "all_fib n = Some (map fib_ref [0..<nat n])"
  by (simp add: all_fib_def py_range_nat all_fib_loop_map)

lemma all_fib_dp_body_step:
  "all_fib_dp_body (int m) (map fib_ref [0..<m]) = Inr (map fib_ref [0..<Suc m])"
proof (cases m rule: fib_ref.cases)
  case 1
  then show ?thesis by (simp add: all_fib_dp_body_def)
next
  case 2
  then show ?thesis by (simp add: all_fib_dp_body_def)
next
  case (3 k)
  have i2: "int m - 2 = int k" and i1: "int m - 1 = int (Suc k)"
    using 3 by simp_all
  have a: "py_index (map fib_ref [0..<m]) (int k) = Inr (fib_ref k)"
    using 3 by (subst py_index_nat) (simp_all del: upt_Suc)
  have b: "py_index (map fib_ref [0..<m]) (int (Suc k)) = Inr (fib_ref (Suc k))"
    using 3 by (subst py_index_nat) (simp_all del: upt_Suc)
  have "\<not> int m < 2" using 3 by simp
  then have "all_fib_dp_body (int m) (map fib_ref [0..<m])
      = Inr (map fib_ref [0..<m] @ [fib_ref k + fib_ref (Suc k)])"
    unfolding all_fib_dp_body_def i1 i2 a b by (simp add: bind_err_def)
  then show ?thesis using 3 by simp
qed

lemma all_fib_dp_upto:
  "for_loop (map int [0..<m]) all_fib_dp_body [] = Inr (map fib_ref [0..<m])"
proof (induction m)
  case 0
  show ?case by simp
next
  case (Suc m)
  have "for_loop (map int [0..<Suc m]) all_fib_dp_body []
      = bind_err (for_loop (map int [0..<m]) all_fib_dp_body []) (for_loop [int m] all_fib_dp_body)"
    by (simp add: for_loop_append)
  also have "\<dots> = all_fib_dp_body (int m) (map fib_ref [0..<m])"
    by (simp add: Suc bind_err_def split: sum.splits)
  finally show ?case by (simp only: all_fib_dp_body_step)
qed

lemma all_fib_dp_eq: "all_fib_dp n = Inr (map fib_ref [0..<nat n])"
  by (simp add: all_fib_dp_def py_range_nat all_fib_dp_upto)

text \<open>
  Claim C7, as the code has it. Neither generator has an error condition. \<open>range(n)\<close> is
  empty for a negative \<open>n\<close>, so both return the empty list there instead of failing; for
  \<open>n \<ge> 0\<close> both return exactly \<open>n\<close> values. (\<open>nat n\<close> is \<open>n\<close> for \<open>n \<ge> 0\<close> and \<open>0\<close> for a
  negative \<open>n\<close>.)
\<close>

theorem fibonacci_never_fails:
  "(\<exists>r. all_fib_dp n = Inr r \<and> length r = nat n) \<and> (\<exists>r. all_fib n = Some r \<and> length r = nat n)"
  by (simp add: all_fib_dp_eq all_fib_eq)

text \<open>
  Claim C7 as stated fails: at \<open>n = -1\<close> (and at \<open>n = -7\<close>) the generators return the empty
  list, they do not fail.
\<close>

theorem fibonacci_negative_counterexample:
  "all_fib_dp (- 1) = Inr [] \<and> all_fib (- 1) = Some [] \<and> all_fib_dp (- 7) = Inr [] \<and> all_fib (- 7) = Some []"
  by (simp add: all_fib_dp_eq all_fib_eq)

text \<open>
  Claim C9. The naive generator \<open>all_fib\<close> (built on the recursive \<open>fib\<close>) and the
  tabulated \<open>all_fib_dp\<close> return the same list, for every \<open>n\<close> and so for \<open>0 \<le> n \<le> 25\<close>;
  both return \<open>[]\<close> for \<open>n = 0\<close>, \<open>[0]\<close> for \<open>n = 1\<close> and
  \<open>[0, 1, 1, 2, 3, 5, 8, 13, 21, 34]\<close> for \<open>n = 10\<close>.
\<close>

theorem fibonacci_variants_agree:
  "(\<exists>r. all_fib n = Some r \<and> all_fib_dp n = Inr r)
   \<and> all_fib 0 = Some [] \<and> all_fib_dp 0 = Inr []
   \<and> all_fib 1 = Some [0] \<and> all_fib_dp 1 = Inr [0]
   \<and> all_fib 10 = Some [0, 1, 1, 2, 3, 5, 8, 13, 21, 34]
   \<and> all_fib_dp 10 = Inr [0, 1, 1, 2, 3, 5, 8, 13, 21, 34]"
proof -
  have "\<exists>r. all_fib n = Some r \<and> all_fib_dp n = Inr r"
    by (simp add: all_fib_dp_eq all_fib_eq)
  moreover have "all_fib 0 = Some []" "all_fib_dp 0 = Inr []"
    by (simp_all add: all_fib_dp_eq all_fib_eq)
  moreover have "all_fib 1 = Some [0]" "all_fib_dp 1 = Inr [0]"
    by (simp_all add: all_fib_dp_eq all_fib_eq)
  moreover have "all_fib 10 = Some [0, 1, 1, 2, 3, 5, 8, 13, 21, 34]"
    by code_simp
  moreover have "all_fib_dp 10 = Inr [0, 1, 1, 2, 3, 5, 8, 13, 21, 34]"
    by code_simp
  ultimately show ?thesis by blast
qed

section \<open>Longest increasing subsequence: the tables and the reconstruction\<close>

lemma find_lis_inner_step:
  assumes "length seq = n" "length (prev s) = n" "length (length_tab s) = n" "i < n" "j < i"
  shows "find_lis_inner seq (int i) (int j) s =
    Inr (s\<lparr>prev := (prev s)[i := snd (scan_step seq (length_tab s) i j (length_tab s ! i, prev s ! i))],
           length_tab := (length_tab s)[i := fst (scan_step seq (length_tab s) i j (length_tab s ! i, prev s ! i))]\<rparr>)"
proof -
  have j: "j < n" using assms by simp
  show ?thesis
    using assms j
    by (simp add: find_lis_inner_def scan_step_def py_index_nat py_store_nat bind_err_def)
qed

lemma scan_step_cong:
  "\<forall>j\<in>set js. L ! j = L' ! j \<Longrightarrow> fold (scan_step seq L i) js lp = fold (scan_step seq L' i) js lp"
  by (induction js arbitrary: lp) (simp_all add: scan_step_def)

lemma find_lis_inner_loop:
  assumes "length seq = n" "length (prev s) = n" "length (length_tab s) = n" "i < n"
    "\<forall>j\<in>set js. j < i"
  shows "for_loop (map int js) (find_lis_inner seq (int i)) s =
    Inr (s\<lparr>prev := (prev s)[i := snd (fold (scan_step seq (length_tab s) i) js (length_tab s ! i, prev s ! i))],
           length_tab := (length_tab s)[i := fst (fold (scan_step seq (length_tab s) i) js (length_tab s ! i, prev s ! i))]\<rparr>)"
  using assms
proof (induction js arbitrary: s)
  case Nil
  then show ?case by simp
next
  case (Cons j js)
  let ?L = "length_tab s"
  let ?lp = "scan_step seq ?L i j (?L ! i, prev s ! i)"
  let ?s' = "s\<lparr>prev := (prev s)[i := snd ?lp], length_tab := ?L[i := fst ?lp]\<rparr>"
  have j: "j < i" using Cons.prems by simp
  have step: "find_lis_inner seq (int i) (int j) s = Inr ?s'"
    using Cons.prems j by (intro find_lis_inner_step) simp_all
  have agree: "\<forall>k\<in>set js. ?L[i := fst ?lp] ! k = ?L ! k"
    using Cons.prems by auto
  have ih: "for_loop (map int js) (find_lis_inner seq (int i)) ?s' =
    Inr (?s'\<lparr>prev := (prev ?s')[i := snd (fold (scan_step seq (length_tab ?s') i) js (length_tab ?s' ! i, prev ?s' ! i))],
           length_tab := (length_tab ?s')[i := fst (fold (scan_step seq (length_tab ?s') i) js (length_tab ?s' ! i, prev ?s' ! i))]\<rparr>)"
    using Cons.prems by (intro Cons.IH) simp_all
  have here: "length_tab ?s' ! i = fst ?lp" "prev ?s' ! i = snd ?lp"
    using Cons.prems by simp_all
  have fold_eq: "fold (scan_step seq (length_tab ?s') i) js (length_tab ?s' ! i, prev ?s' ! i)
      = fold (scan_step seq ?L i) (j # js) (?L ! i, prev s ! i)"
    unfolding here using scan_step_cong[OF agree] by simp
  show ?case
    unfolding list.map for_loop.simps step bind_err_def sum.case ih fold_eq
    by simp
qed

lemma scan_fold_spec:
  fixes seq :: "'a::linorder list" and L :: "int list" and i :: nat
  defines "r \<equiv> \<lambda>js lp. fold (scan_step seq L i) js lp"
  shows "fst lp \<le> fst (r js lp)
    \<and> (\<forall>j\<in>set js. seq ! j < seq ! i \<longrightarrow> L ! j + 1 \<le> fst (r js lp))
    \<and> (r js lp = lp
       \<or> (\<exists>k<length js. snd (r js lp) = int (js ! k) \<and> seq ! (js ! k) < seq ! i
            \<and> fst (r js lp) = L ! (js ! k) + 1 \<and> fst lp < fst (r js lp)
            \<and> (\<forall>k'<k. seq ! (js ! k') < seq ! i \<longrightarrow> L ! (js ! k') + 1 < fst (r js lp))))"
proof (induction js rule: rev_induct)
  case Nil
  show ?case by (simp add: r_def)
next
  case (snoc j js)
  let ?a = "r js lp"
  have step: "r (js @ [j]) lp = scan_step seq L i j ?a" by (simp add: r_def)
  show ?case
  proof (cases "L ! j + 1 > fst ?a \<and> seq ! j < seq ! i")
    case True
    then have new: "r (js @ [j]) lp = (L ! j + 1, int j)"
      by (simp add: step scan_step_def)
    have "\<forall>k'<length js. seq ! (js ! k') < seq ! i \<longrightarrow> L ! (js ! k') + 1 < L ! j + 1"
      using snoc True by fastforce
    then have "\<exists>k<length (js @ [j]). snd (r (js @ [j]) lp) = int ((js @ [j]) ! k)
            \<and> seq ! ((js @ [j]) ! k) < seq ! i
            \<and> fst (r (js @ [j]) lp) = L ! ((js @ [j]) ! k) + 1 \<and> fst lp < fst (r (js @ [j]) lp)
            \<and> (\<forall>k'<k. seq ! ((js @ [j]) ! k') < seq ! i \<longrightarrow> L ! ((js @ [j]) ! k') + 1 < fst (r (js @ [j]) lp))"
      using snoc True by (intro exI[of _ "length js"]) (auto simp: new nth_append)
    moreover have "fst lp \<le> fst (r (js @ [j]) lp)" using snoc True by (simp add: new)
    moreover have "\<forall>j'\<in>set (js @ [j]). seq ! j' < seq ! i \<longrightarrow> L ! j' + 1 \<le> fst (r (js @ [j]) lp)"
      using snoc True by (fastforce simp: new)
    ultimately show ?thesis by blast
  next
    case False
    then have same: "r (js @ [j]) lp = ?a"
      unfolding step scan_step_def by (simp only: if_False)
    have b: "\<forall>j'\<in>set (js @ [j]). seq ! j' < seq ! i \<longrightarrow> L ! j' + 1 \<le> fst ?a"
      using snoc False by auto
    from snoc have "?a = lp
       \<or> (\<exists>k<length js. snd ?a = int (js ! k) \<and> seq ! (js ! k) < seq ! i
            \<and> fst ?a = L ! (js ! k) + 1 \<and> fst lp < fst ?a
            \<and> (\<forall>k'<k. seq ! (js ! k') < seq ! i \<longrightarrow> L ! (js ! k') + 1 < fst ?a))"
      by blast
    then have c: "?a = lp
       \<or> (\<exists>k<length (js @ [j]). snd ?a = int ((js @ [j]) ! k) \<and> seq ! ((js @ [j]) ! k) < seq ! i
            \<and> fst ?a = L ! ((js @ [j]) ! k) + 1 \<and> fst lp < fst ?a
            \<and> (\<forall>k'<k. seq ! ((js @ [j]) ! k') < seq ! i \<longrightarrow> L ! ((js @ [j]) ! k') + 1 < fst ?a))"
    proof
      assume "?a = lp" then show ?thesis by simp
    next
      assume "\<exists>k<length js. snd ?a = int (js ! k) \<and> seq ! (js ! k) < seq ! i
            \<and> fst ?a = L ! (js ! k) + 1 \<and> fst lp < fst ?a
            \<and> (\<forall>k'<k. seq ! (js ! k') < seq ! i \<longrightarrow> L ! (js ! k') + 1 < fst ?a)"
      then obtain k where k: "k < length js" "snd ?a = int (js ! k)" "seq ! (js ! k) < seq ! i"
            "fst ?a = L ! (js ! k) + 1" "fst lp < fst ?a"
            "\<forall>k'<k. seq ! (js ! k') < seq ! i \<longrightarrow> L ! (js ! k') + 1 < fst ?a"
        by blast
      have "\<forall>k'<k. (js @ [j]) ! k' = js ! k'" using k(1) by (simp add: nth_append)
      moreover have "(js @ [j]) ! k = js ! k" using k(1) by (simp add: nth_append)
      ultimately have "k < length (js @ [j]) \<and> snd ?a = int ((js @ [j]) ! k) \<and> seq ! ((js @ [j]) ! k) < seq ! i
            \<and> fst ?a = L ! ((js @ [j]) ! k) + 1 \<and> fst lp < fst ?a
            \<and> (\<forall>k'<k. seq ! ((js @ [j]) ! k') < seq ! i \<longrightarrow> L ! ((js @ [j]) ! k') + 1 < fst ?a)"
        using k by simp
      then show ?thesis by blast
    qed
    have a: "fst lp \<le> fst ?a" using snoc by blast
    show ?thesis unfolding same using a b c by blast
  qed
qed

lemma scan_down_spec:
  fixes seq :: "'a::linorder list"
  assumes nonneg: "\<forall>j<i. 0 \<le> L ! j"
  shows "keeps_last_best seq L i
           (fst (fold (scan_step seq L i) (rev [0..<i]) (0, - 1)))
           (snd (fold (scan_step seq L i) (rev [0..<i]) (0, - 1)))"
proof -
  let ?js = "rev [0..<i]"
  let ?r = "fold (scan_step seq L i) ?js (0, - 1)"
  have nth: "?js ! k = i - 1 - k" if "k < i" for k
    using that by (simp add: rev_nth)
  note spec = scan_fold_spec[of "(0, - 1)" seq L i ?js]
  have B: "\<forall>j<i. seq ! j < seq ! i \<longrightarrow> L ! j + 1 \<le> fst ?r"
    using spec by simp
  have C: "?r = (0, - 1)
       \<or> (\<exists>k<i. snd ?r = int (?js ! k) \<and> seq ! (?js ! k) < seq ! i
            \<and> fst ?r = L ! (?js ! k) + 1 \<and> 0 < fst ?r
            \<and> (\<forall>k'<k. seq ! (?js ! k') < seq ! i \<longrightarrow> L ! (?js ! k') + 1 < fst ?r))"
    using spec by simp
  show ?thesis
  proof (cases "\<forall>j<i. \<not> seq ! j < seq ! i")
    case True
    have "\<not> (\<exists>k<i. seq ! (?js ! k) < seq ! i)"
    proof
      assume "\<exists>k<i. seq ! (?js ! k) < seq ! i"
      then obtain k where k: "k < i" "seq ! (?js ! k) < seq ! i" by blast
      have "i - 1 - k < i" using k(1) by simp
      with True k nth[OF k(1)] show False by metis
    qed
    with C have "?r = (0, - 1)" by blast
    with True show ?thesis by (simp add: keeps_last_best_def)
  next
    case False
    then obtain j0 where j0: "j0 < i" "seq ! j0 < seq ! i" by blast
    then have "1 \<le> fst ?r" using B nonneg by fastforce
    then have "?r \<noteq> (0, - 1)" by auto
    with C obtain k where k: "k < i" "snd ?r = int (?js ! k)" "seq ! (?js ! k) < seq ! i"
        "fst ?r = L ! (?js ! k) + 1"
        "\<forall>k'<k. seq ! (?js ! k') < seq ! i \<longrightarrow> L ! (?js ! k') + 1 < fst ?r"
      by blast
    let ?q = "i - 1 - k"
    have q: "?js ! k = ?q" by (rule nth[OF k(1)])
    have qi: "?q < i" using k(1) by simp
    have le: "\<forall>j<i. seq ! j < seq ! i \<longrightarrow> L ! j \<le> L ! ?q"
      using B k(4) q by fastforce
    have lt: "\<forall>j<i. ?q < j \<longrightarrow> seq ! j < seq ! i \<longrightarrow> L ! j < L ! ?q"
    proof (intro allI impI)
      fix j assume j: "j < i" "?q < j" "seq ! j < seq ! i"
      let ?k' = "i - 1 - j"
      have k': "?k' < k" using j k(1) by arith
      then have "?k' < i" using k(1) by simp
      then have "?js ! ?k' = j" using nth[of ?k'] j(1) by simp
      with k(5) k' j(3) have "L ! j + 1 < fst ?r" by metis
      then show "L ! j < L ! ?q" using k(4) q by simp
    qed
    have "\<exists>q<i. snd ?r = int q \<and> seq ! q < seq ! i \<and> fst ?r = L ! q + 1
             \<and> (\<forall>j<i. seq ! j < seq ! i \<longrightarrow> L ! j \<le> L ! q)
             \<and> (\<forall>j<i. q < j \<longrightarrow> seq ! j < seq ! i \<longrightarrow> L ! j < L ! q)"
      using qi k(2,3,4) le lt unfolding q by blast
    with False show ?thesis unfolding keeps_last_best_def by (simp only: if_False)
  qed
qed

lemma find_lis_outer_eq:
  assumes "length seq = n" "length (prev s) = n" "length (length_tab s) = n" "m < n"
  defines "r \<equiv> fold (scan_step seq (length_tab s) m) (rev [0..<m]) (0, - 1)"
  defines "s2 \<equiv> s\<lparr>prev := (prev s)[m := snd r], length_tab := (length_tab s)[m := fst r]\<rparr>"
  shows "find_lis_outer seq (int m) s =
    Inr (if fst r > max_length s then s2\<lparr>max_length := fst r, best_seq_end := int m\<rparr> else s2)"
proof -
  let ?L = "length_tab s" and ?P = "prev s"
  let ?s1 = "s\<lparr>prev := ?P[m := - 1], length_tab := ?L[m := 0]\<rparr>"
  have st1: "py_store ?L (int m) 0 = Inr (?L[m := 0])"
    and st2: "py_store ?P (int m) (- 1) = Inr (?P[m := - 1])"
    using assms by (simp_all add: py_store_nat)
  have rng: "rev (py_range 0 (int m)) = map int (rev [0..<m])"
    by (simp add: py_range_nat rev_map)
  have "\<forall>j\<in>set (rev [0..<m]). ?L[m := 0] ! j = ?L ! j" by auto
  then have fold_eq: "fold (scan_step seq (?L[m := 0]) m) (rev [0..<m]) (0, - 1) = r"
    unfolding r_def by (rule scan_step_cong)
  have at_m: "length_tab ?s1 ! m = 0" "prev ?s1 ! m = - 1"
    using assms by simp_all
  have "for_loop (map int (rev [0..<m])) (find_lis_inner seq (int m)) ?s1 =
    Inr (?s1\<lparr>prev := (prev ?s1)[m := snd (fold (scan_step seq (length_tab ?s1) m) (rev [0..<m]) (length_tab ?s1 ! m, prev ?s1 ! m))],
           length_tab := (length_tab ?s1)[m := fst (fold (scan_step seq (length_tab ?s1) m) (rev [0..<m]) (length_tab ?s1 ! m, prev ?s1 ! m))]\<rparr>)"
    using assms by (intro find_lis_inner_loop[where n = n]) simp_all
  also have "\<dots> = Inr s2"
    unfolding at_m using fold_eq by (simp add: s2_def)
  finally have loop: "for_loop (map int (rev [0..<m])) (find_lis_inner seq (int m)) ?s1 = Inr s2" .
  have rd: "py_index (length_tab s2) (int m) = Inr (fst r)"
    using assms(1-4) by (simp add: s2_def py_index_nat)
  have mx: "max_length s2 = max_length s" by (simp add: s2_def)
  show ?thesis
    unfolding find_lis_outer_def st1 st2 rng bind_err_def sum.case loop rd mx
    by simp
qed

lemma keeps_last_best_cong:
  assumes "\<forall>j<i. L ! j = L' ! j"
  shows "keeps_last_best seq L i l p = keeps_last_best seq L' i l p"
  using assms unfolding keeps_last_best_def by auto

lemma keeps_last_best_nonneg:
  "keeps_last_best seq L i l p \<Longrightarrow> \<forall>j<i. 0 \<le> L ! j \<Longrightarrow> 0 \<le> l"
  unfolding keeps_last_best_def by (auto split: if_splits)

lemma find_lis_outer_inv:
  assumes inv: "lis_inv seq m s" and m: "1 \<le> m" "m < length seq"
  shows "\<exists>s'. find_lis_outer seq (int m) s = Inr s' \<and> lis_inv seq (Suc m) s'"
proof -
  let ?L = "length_tab s" and ?P = "prev s"
  define r where "r = fold (scan_step seq ?L m) (rev [0..<m]) (0, - 1)"
  define s2 where "s2 = s\<lparr>prev := ?P[m := snd r], length_tab := ?L[m := fst r]\<rparr>"
  define s' where "s' = (if fst r > max_length s then s2\<lparr>max_length := fst r, best_seq_end := int m\<rparr> else s2)"
  have len: "length ?P = length seq" "length ?L = length seq"
    using inv by (simp_all add: lis_inv_def)
  have eq: "find_lis_outer seq (int m) s = Inr s'"
    unfolding s'_def s2_def r_def
    using len m by (intro find_lis_outer_eq[where n = "length seq"]) simp_all
  have nonneg: "\<forall>i<m. 0 \<le> ?L ! i" using inv by (simp add: lis_inv_def)
  have klb: "keeps_last_best seq ?L m (fst r) (snd r)"
    unfolding r_def by (rule scan_down_spec[OF nonneg])
  have r0: "0 \<le> fst r" by (rule keeps_last_best_nonneg[OF klb nonneg])
  have tabs: "prev s' = ?P[m := snd r]" "length_tab s' = ?L[m := fst r]"
    by (simp_all add: s'_def s2_def)
  have old: "length_tab s' ! i = ?L ! i" "prev s' ! i = ?P ! i" if "i < m" for i
    using that by (simp_all add: tabs)
  have new: "length_tab s' ! m = fst r" "prev s' ! m = snd r"
    using len m by (simp_all add: tabs)
  have 1: "length (prev s') = length seq" "length (length_tab s') = length seq"
    using len by (simp_all add: tabs)
  have 2: "prev s' ! 0 = - 1" "length_tab s' ! 0 = 1"
    using inv m old[of 0] by (simp_all add: lis_inv_def)
  have 3: "\<forall>i<Suc m. 0 \<le> length_tab s' ! i"
    using nonneg r0 old new by (auto simp: less_Suc_eq)
  have 4: "\<forall>i<Suc m. 1 \<le> i \<longrightarrow> keeps_last_best seq (length_tab s') i (length_tab s' ! i) (prev s' ! i)"
  proof (intro allI impI)
    fix i assume i: "i < Suc m" "1 \<le> i"
    have agree: "\<forall>j<i. ?L ! j = length_tab s' ! j" using i old by simp
    show "keeps_last_best seq (length_tab s') i (length_tab s' ! i) (prev s' ! i)"
    proof (cases "i = m")
      case True
      then show ?thesis
        using klb keeps_last_best_cong[OF agree, of seq] new by simp
    next
      case False
      then have im: "i < m" using i by simp
      then have "keeps_last_best seq ?L i (?L ! i) (?P ! i)"
        using inv i by (simp add: lis_inv_def)
      then show ?thesis
        using keeps_last_best_cong[OF agree, of seq] old[OF im] by simp
    qed
  qed
  have mx: "1 \<le> max_length s" using inv by (simp add: lis_inv_def)
  have 5: "1 \<le> max_length s'"
    using mx by (simp add: s'_def s2_def)
  have 6: "best_seq_end s' = - 1
        \<or> (\<exists>b<Suc m. 1 \<le> b \<and> best_seq_end s' = int b \<and> 2 \<le> length_tab s' ! b)"
  proof (cases "fst r > max_length s")
    case True
    then have "best_seq_end s' = int m" by (simp add: s'_def)
    moreover have "2 \<le> length_tab s' ! m" using True mx new by simp
    ultimately show ?thesis using m by blast
  next
    case False
    then have same: "best_seq_end s' = best_seq_end s" by (simp add: s'_def s2_def)
    from inv have "best_seq_end s = - 1
        \<or> (\<exists>b<m. 1 \<le> b \<and> best_seq_end s = int b \<and> 2 \<le> ?L ! b)"
      by (simp add: lis_inv_def)
    then show ?thesis
    proof
      assume "best_seq_end s = - 1" then show ?thesis using same by simp
    next
      assume "\<exists>b<m. 1 \<le> b \<and> best_seq_end s = int b \<and> 2 \<le> ?L ! b"
      then obtain b where b: "b < m" "1 \<le> b" "best_seq_end s = int b" "2 \<le> ?L ! b" by blast
      then have "b < Suc m \<and> 1 \<le> b \<and> best_seq_end s' = int b \<and> 2 \<le> length_tab s' ! b"
        using same old[of b] by simp
      then show ?thesis by blast
    qed
  qed
  have "lis_inv seq (Suc m) s'"
    unfolding lis_inv_def using 1 2 3 4 5 6 by blast
  with eq show ?thesis by blast
qed

lemma find_lis_loop_inv:
  assumes "lis_inv seq 1 s0" "1 \<le> k" "k \<le> length seq"
  shows "\<exists>s. for_loop (map int [1..<k]) (find_lis_outer seq) s0 = Inr s \<and> lis_inv seq k s"
  using assms(2,3)
proof (induction k)
  case 0
  then show ?case by simp
next
  case (Suc k)
  show ?case
  proof (cases "k = 0")
    case True
    then show ?thesis using assms(1) by simp
  next
    case False
    then have k: "1 \<le> k" "k < length seq" using Suc.prems by simp_all
    then obtain s where s: "for_loop (map int [1..<k]) (find_lis_outer seq) s0 = Inr s" "lis_inv seq k s"
      using Suc.IH by auto
    obtain s' where s': "find_lis_outer seq (int k) s = Inr s'" "lis_inv seq (Suc k) s'"
      using find_lis_outer_inv[OF s(2) k] by blast
    have split: "[1..<Suc k] = [1..<k] @ [k]" using k by simp
    have "for_loop (map int [1..<Suc k]) (find_lis_outer seq) s0 = Inr s'"
      unfolding split map_append for_loop_append s(1) bind_err_def sum.case
      by (simp add: s'(1) bind_err_def)
    with s'(2) show ?thesis by blast
  qed
qed

lemma find_lis_tables_inv:
  assumes "seq \<noteq> []"
  shows "\<exists>s. find_lis_tables seq = Inr s \<and> lis_inv seq (length seq) s"
proof -
  let ?n = "length seq"
  let ?s0 = "\<lparr>prev = (replicate ?n (0::int))[0 := - 1], length_tab = (replicate ?n (0::int))[0 := 1],
              max_length = 1, best_seq_end = - 1\<rparr>"
  have n: "0 < ?n" using assms by simp
  have n1: "1 \<le> ?n" using assms by (cases seq) simp_all
  have st: "py_store (replicate ?n (0::int)) 0 (- 1) = Inr ((replicate ?n 0)[0 := - 1])"
        "py_store (replicate ?n (0::int)) 0 1 = Inr ((replicate ?n 0)[0 := 1])"
    using n py_store_nat[of 0 "replicate ?n (0::int)"] by simp_all
  have rng: "py_range 1 (int ?n) = map int [1..<?n]"
    using py_range_nat[of 1 "int ?n"] by simp
  have eq: "find_lis_tables seq = for_loop (map int [1..<?n]) (find_lis_outer seq) ?s0"
    unfolding find_lis_tables_def Let_def py_zeros by (simp add: st rng bind_err_def)
  have "lis_inv seq 1 ?s0"
    using n by (simp add: lis_inv_def)
  then show ?thesis
    unfolding eq using n1 by (intro find_lis_loop_inv) simp_all
qed

lemma sorted_wrt_gt_hd:
  fixes ys :: "'a::linorder list"
  shows "sorted_wrt (>) ys \<Longrightarrow> y \<in> set ys \<Longrightarrow> y \<le> hd ys"
  by (cases ys) auto

lemma subseq_take_snoc:
  assumes "subseq zs (take (Suc q) xs)" "q < e" "e < length xs"
  shows "subseq (zs @ [xs ! e]) (take (Suc e) xs)"
proof -
  have "take (Suc q) xs = take (Suc q) (take e xs)" using assms(2) by (simp add: min_def)
  then have "prefix (take (Suc q) xs) (take e xs)" by (metis take_is_prefix)
  then have "subseq (take (Suc q) xs) (take e xs)" by (rule prefix_imp_subseq)
  with assms(1) have "subseq zs (take e xs)" by (rule subseq_order.order_trans)
  then have "subseq (zs @ [xs ! e]) (take e xs @ [xs ! e])"
    by (intro list_emb_append_mono) simp_all
  then show ?thesis using assms(3) by (simp add: take_Suc_conv_app_nth)
qed

lemma recover_walk:
  fixes seq :: "'a::linorder list"
  assumes len: "length P = length seq"
    and links: "\<forall>i<length seq. P ! i = - 1 \<or> (\<exists>q<i. P ! i = int q \<and> seq ! q < seq ! i)"
  shows "e < length seq \<Longrightarrow>
    \<exists>ys. recover seq P (int e) lis = Some (Inr (lis @ ys)) \<and> ys \<noteq> [] \<and> hd ys = seq ! e
        \<and> sorted_wrt (>) ys \<and> subseq (rev ys) (take (Suc e) seq)
        \<and> (P ! e \<noteq> - 1 \<longrightarrow> 2 \<le> length ys)"
proof (induction e arbitrary: lis rule: less_induct)
  case (less e)
  have e: "e < length seq" by fact
  have rd: "py_index seq (int e) = Inr (seq ! e)" "py_index P (int e) = Inr (P ! e)"
    using e len by (simp_all add: py_index_nat)
  have unf: "recover seq P (int e) lis = recover seq P (P ! e) (lis @ [seq ! e])"
    by (subst recover.simps) (simp add: rd)
  from links e have "P ! e = - 1 \<or> (\<exists>q<e. P ! e = int q \<and> seq ! q < seq ! e)" by blast
  then show ?case
  proof
    assume stop: "P ! e = - 1"
    have "recover seq P (- 1) (lis @ [seq ! e]) = Some (Inr (lis @ [seq ! e]))"
      by (subst recover.simps) simp
    then have "recover seq P (int e) lis = Some (Inr (lis @ [seq ! e]))"
      using unf stop by simp
    moreover have "subseq (rev [seq ! e]) (take (Suc e) seq)"
      using e by (simp add: take_Suc_conv_app_nth subseq_singleton_left)
    ultimately show ?thesis using stop by (intro exI[of _ "[seq ! e]"]) simp
  next
    assume "\<exists>q<e. P ! e = int q \<and> seq ! q < seq ! e"
    then obtain q where q: "q < e" "P ! e = int q" "seq ! q < seq ! e" by blast
    have "q < length seq" using q(1) e by simp
    from less.IH[OF q(1) this, of "lis @ [seq ! e]"]
    obtain ys where ys: "recover seq P (int q) (lis @ [seq ! e]) = Some (Inr ((lis @ [seq ! e]) @ ys))"
        "ys \<noteq> []" "hd ys = seq ! q" "sorted_wrt (>) ys" "subseq (rev ys) (take (Suc q) seq)"
      by blast
    let ?ys = "seq ! e # ys"
    have 1: "recover seq P (int e) lis = Some (Inr (lis @ ?ys))"
      using unf q(2) ys(1) by simp
    have "\<forall>y\<in>set ys. y < seq ! e"
      using sorted_wrt_gt_hd[OF ys(4)] ys(3) q(3) by fastforce
    then have 2: "sorted_wrt (>) ?ys" using ys(4) by simp
    have 3: "subseq (rev ?ys) (take (Suc e) seq)"
      using subseq_take_snoc[OF ys(5) q(1) e] by simp
    have 4: "2 \<le> length ?ys" using ys(2) by (cases ys) simp_all
    show ?thesis using 1 2 3 4 by (intro exI[of _ ?ys]) simp
  qed
qed

lemma lis_inv_links:
  assumes "lis_inv seq (length seq) s"
  shows "\<forall>i<length seq. prev s ! i = - 1 \<or> (\<exists>q<i. prev s ! i = int q \<and> seq ! q < seq ! i)"
proof (intro allI impI)
  fix i assume i: "i < length seq"
  show "prev s ! i = - 1 \<or> (\<exists>q<i. prev s ! i = int q \<and> seq ! q < seq ! i)"
  proof (cases "i = 0")
    case True
    then show ?thesis using assms by (simp add: lis_inv_def)
  next
    case False
    then have "keeps_last_best seq (length_tab s) i (length_tab s ! i) (prev s ! i)"
      using assms i by (simp add: lis_inv_def)
    then show ?thesis
      unfolding keeps_last_best_def by (auto split: if_splits)
  qed
qed

lemma lis_inv_best:
  assumes "lis_inv seq (length seq) s"
  shows "best_seq_end s = - 1
    \<or> (\<exists>b<length seq. best_seq_end s = int b \<and> 2 \<le> length_tab s ! b \<and> prev s ! b \<noteq> - 1)"
proof -
  from assms have "best_seq_end s = - 1
        \<or> (\<exists>b<length seq. 1 \<le> b \<and> best_seq_end s = int b \<and> 2 \<le> length_tab s ! b)"
    by (simp add: lis_inv_def)
  then show ?thesis
  proof
    assume "best_seq_end s = - 1" then show ?thesis by simp
  next
    assume "\<exists>b<length seq. 1 \<le> b \<and> best_seq_end s = int b \<and> 2 \<le> length_tab s ! b"
    then obtain b where b: "b < length seq" "1 \<le> b" "best_seq_end s = int b" "2 \<le> length_tab s ! b"
      by blast
    then have "keeps_last_best seq (length_tab s) b (length_tab s ! b) (prev s ! b)"
      using assms by (simp add: lis_inv_def)
    then have "prev s ! b \<noteq> - 1"
      using b(4) unfolding keeps_last_best_def by (auto split: if_splits)
    with b show ?thesis by blast
  qed
qed

lemma find_lis_result:
  fixes seq :: "'a::linorder list"
  assumes "seq \<noteq> []"
  shows "\<exists>s r. find_lis_tables seq = Inr s \<and> lis_inv seq (length seq) s
      \<and> find_lis seq = Some (Inr r) \<and> sorted_wrt (<) r \<and> subseq r seq
      \<and> (r = [] \<or> 2 \<le> length r)"
proof -
  obtain s where s: "find_lis_tables seq = Inr s" "lis_inv seq (length seq) s"
    using find_lis_tables_inv[OF assms] by blast
  have len: "length (prev s) = length seq" using s(2) by (simp add: lis_inv_def)
  note links = lis_inv_links[OF s(2)]
  have fl: "find_lis seq = map_option (map_sum id rev) (recover seq (prev s) (best_seq_end s) [])"
    by (simp add: find_lis_def s(1))
  from lis_inv_best[OF s(2)] show ?thesis
  proof
    assume "best_seq_end s = - 1"
    then have "recover seq (prev s) (best_seq_end s) [] = Some (Inr [])"
      by (subst recover.simps) simp
    then have "find_lis seq = Some (Inr [])" by (simp add: fl)
    with s show ?thesis by simp
  next
    assume "\<exists>b<length seq. best_seq_end s = int b \<and> 2 \<le> length_tab s ! b \<and> prev s ! b \<noteq> - 1"
    then obtain b where b: "b < length seq" "best_seq_end s = int b" "prev s ! b \<noteq> - 1"
      by blast
    from recover_walk[OF len links b(1), of "[]"]
    obtain ys where ys: "recover seq (prev s) (int b) [] = Some (Inr ([] @ ys))"
        "sorted_wrt (>) ys" "subseq (rev ys) (take (Suc b) seq)" "prev s ! b \<noteq> - 1 \<longrightarrow> 2 \<le> length ys"
      by blast
    have 1: "find_lis seq = Some (Inr (rev ys))"
      using ys(1) by (simp add: fl b(2))
    have 2: "sorted_wrt (<) (rev ys)"
      using ys(2) by (simp add: sorted_wrt_rev)
    have "subseq (take (Suc b) seq) seq"
      by (rule prefix_imp_subseq) (rule take_is_prefix)
    with ys(3) have 3: "subseq (rev ys) seq" by (rule subseq_order.order_trans)
    have 4: "2 \<le> length (rev ys)" using ys(4) b(3) by simp
    show ?thesis using s 1 2 3 4 by blast
  qed
qed


section \<open>Longest increasing subsequence: the claims\<close>

text \<open>
  Claim C1 fails on the code. The length of the result is not the greatest length of a
  strictly increasing subsequence: on \<open>[5, 6, 1, 2, 3]\<close> the result is \<open>[5, 6]\<close>, of length 2,
  and the greatest length is 3 (\<open>[1, 2, 3]\<close>); on \<open>[5]\<close> and on \<open>[5, 4, 3, 2, 1]\<close> the result
  is the empty list, not a list of length 1. A chain that does not start at index 0 is
  tabulated one short (\<open>length[i]\<close> starts from 0, only \<open>length[0]\<close> is 1), and
  \<open>best_seq_end\<close> stays \<open>-1\<close> until a tabulated length exceeds 1.
\<close>

theorem find_lis_misses_longest:
  "find_lis [5, 6, 1, 2, 3 :: int] = Some (Inr [5, 6])
   \<and> lis_length_ref [5, 6, 1, 2, 3 :: int] = 3
   \<and> find_lis [5 :: int] = Some (Inr []) \<and> lis_length_ref [5 :: int] = 1
   \<and> find_lis [5, 4, 3, 2, 1 :: int] = Some (Inr []) \<and> lis_length_ref [5, 4, 3, 2, 1 :: int] = 1"
proof -
  have "find_lis [5, 6, 1, 2, 3 :: int] = Some (Inr [5, 6])" by code_simp
  moreover have "lis_length_ref [5, 6, 1, 2, 3 :: int] = 3" by code_simp
  moreover have "find_lis [5 :: int] = Some (Inr [])" by code_simp
  moreover have "lis_length_ref [5 :: int] = 1" by code_simp
  moreover have "find_lis [5, 4, 3, 2, 1 :: int] = Some (Inr [])" by code_simp
  moreover have "lis_length_ref [5, 4, 3, 2, 1 :: int] = 1" by code_simp
  ultimately show ?thesis by blast
qed

text \<open>
  Claim C2 fails on the code at the empty list: \<open>prev[0] = -1\<close> is run on the empty list
  \<open>prev\<close> and raises \<open>IndexError\<close>, where the claim has the empty list returned.
\<close>

theorem find_lis_empty_raises:
  "find_lis ([] :: int list) = Some (Inl IndexError)"
  by (simp add: find_lis_def find_lis_tables_def py_range_def py_store_def bind_err_def)

text \<open>
  Claim C4 as stated fails: on \<open>[10, 22, 9, 33, 21, 50, 41, 60, 80]\<close> the result is
  \<open>[10, 22, 33, 41, 60, 80]\<close>, not \<open>[10, 22, 33, 50, 60, 80]\<close>. At index 7 (value 60) the
  candidates 5 (value 50) and 6 (value 41) both have tabulated length 4, and the
  predecessor kept is 6, the larger index.
\<close>

theorem find_lis_tie_counterexample:
  "find_lis [10, 22, 9, 33, 21, 50, 41, 60, 80 :: int] = Some (Inr [10, 22, 33, 41, 60, 80])
   \<and> find_lis [10, 22, 9, 33, 21, 50, 41, 60, 80 :: int] \<noteq> Some (Inr [10, 22, 33, 50, 60, 80])
   \<and> map_sum id length_tab (find_lis_tables [10, 22, 9, 33, 21, 50, 41, 60, 80 :: int])
       = Inr [1, 2, 0, 3, 2, 4, 4, 5, 6]
   \<and> map_sum id prev (find_lis_tables [10, 22, 9, 33, 21, 50, 41, 60, 80 :: int])
       = Inr [- 1, 0, - 1, 1, 0, 3, 3, 6, 7]"
proof -
  have a: "find_lis [10, 22, 9, 33, 21, 50, 41, 60, 80 :: int] = Some (Inr [10, 22, 33, 41, 60, 80])"
    by code_simp
  have b: "map_sum id length_tab (find_lis_tables [10, 22, 9, 33, 21, 50, 41, 60, 80 :: int])
       = Inr [1, 2, 0, 3, 2, 4, 4, 5, 6]"
    by code_simp
  have c: "map_sum id prev (find_lis_tables [10, 22, 9, 33, 21, 50, 41, 60, 80 :: int])
       = Inr [- 1, 0, - 1, 1, 0, 3, 3, 6, 7]"
    by code_simp
  show ?thesis unfolding a using b c by simp
qed

text \<open>
  Claim C4, as the code has it. The scan over \<open>j\<close> runs from \<open>i - 1\<close> down to \<open>0\<close> and the
  first strict improvement wins, so among the candidates \<open>j < i\<close> with \<open>seq[j] < seq[i]\<close>
  of greatest tabulated length the one kept in \<open>prev[i]\<close> is the one of largest index:
  every candidate has a length at most that of \<open>prev[i]\<close>, every candidate above
  \<open>prev[i]\<close> a strictly smaller one, and \<open>length[i]\<close> is that length plus one. With no
  candidate, \<open>prev[i] = -1\<close> and \<open>length[i] = 0\<close>. The result is read off this table from
  \<open>best_seq_end\<close>, and on \<open>[10, 22, 9, 33, 21, 50, 41, 60, 80]\<close> it is
  \<open>[10, 22, 33, 41, 60, 80]\<close>.
\<close>

theorem find_lis_keeps_largest_index:
  fixes seq :: "'a::linorder list"
  assumes "seq \<noteq> []"
  shows "\<exists>s. find_lis_tables seq = Inr s
    \<and> (\<forall>i. 1 \<le> i \<and> i < length seq \<longrightarrow>
         (if \<forall>j<i. \<not> seq ! j < seq ! i then prev s ! i = - 1 \<and> length_tab s ! i = 0
          else \<exists>q<i. prev s ! i = int q \<and> seq ! q < seq ! i
                 \<and> length_tab s ! i = length_tab s ! q + 1
                 \<and> (\<forall>j<i. seq ! j < seq ! i \<longrightarrow> length_tab s ! j \<le> length_tab s ! q)
                 \<and> (\<forall>j<i. q < j \<longrightarrow> seq ! j < seq ! i \<longrightarrow> length_tab s ! j < length_tab s ! q)))
    \<and> find_lis seq = map_option (map_sum id rev) (recover seq (prev s) (best_seq_end s) [])
    \<and> find_lis [10, 22, 9, 33, 21, 50, 41, 60, 80 :: int] = Some (Inr [10, 22, 33, 41, 60, 80])"
proof -
  obtain s where s: "find_lis_tables seq = Inr s" "lis_inv seq (length seq) s"
    using find_lis_tables_inv[OF assms] by blast
  have "\<forall>i. 1 \<le> i \<and> i < length seq \<longrightarrow>
      keeps_last_best seq (length_tab s) i (length_tab s ! i) (prev s ! i)"
    using s(2) by (simp add: lis_inv_def)
  then have 1: "\<forall>i. 1 \<le> i \<and> i < length seq \<longrightarrow>
         (if \<forall>j<i. \<not> seq ! j < seq ! i then prev s ! i = - 1 \<and> length_tab s ! i = 0
          else \<exists>q<i. prev s ! i = int q \<and> seq ! q < seq ! i
                 \<and> length_tab s ! i = length_tab s ! q + 1
                 \<and> (\<forall>j<i. seq ! j < seq ! i \<longrightarrow> length_tab s ! j \<le> length_tab s ! q)
                 \<and> (\<forall>j<i. q < j \<longrightarrow> seq ! j < seq ! i \<longrightarrow> length_tab s ! j < length_tab s ! q))"
    unfolding keeps_last_best_def by (simp add: conj_commute)
  have 2: "find_lis seq = map_option (map_sum id rev) (recover seq (prev s) (best_seq_end s) [])"
    by (simp add: find_lis_def s(1))
  have 3: "find_lis [10, 22, 9, 33, 21, 50, 41, 60, 80 :: int] = Some (Inr [10, 22, 33, 41, 60, 80])"
    by code_simp
  show ?thesis using s(1) 1 2 3 by blast
qed

theorem find_lis_keeps_largest_index_witness:
  "[10, 22, 9, 33, 21, 50, 41, 60, 80 :: int] \<noteq> []
   \<and> (\<exists>s. find_lis_tables [10, 22, 9, 33, 21, 50, 41, 60, 80 :: int] = Inr s
        \<and> prev s ! 7 = 6 \<and> length_tab s ! 7 = 5 \<and> length_tab s ! 5 = length_tab s ! 6)"
proof -
  let ?seq = "[10, 22, 9, 33, 21, 50, 41, 60, 80 :: int]"
  have h: "?seq \<noteq> []" by simp
  have t: "find_lis_tables ?seq = Inr \<lparr>prev = [- 1, 0, - 1, 1, 0, 3, 3, 6, 7],
      length_tab = [1, 2, 0, 3, 2, 4, 4, 5, 6], max_length = 6, best_seq_end = 8\<rparr>"
    by code_simp
  from find_lis_keeps_largest_index[OF h]
  obtain s where s: "find_lis_tables ?seq = Inr s" by blast
  with t have "prev s ! 7 = 6 \<and> length_tab s ! 7 = 5 \<and> length_tab s ! 5 = length_tab s ! 6"
    by auto
  with s h show ?thesis by blast
qed

text \<open>
  Claim C8. On every non-empty input \<open>find_lis\<close> returns a list that is strictly
  increasing and a subsequence of the input (its elements in the input's order).
\<close>

theorem find_lis_increasing_subsequence:
  fixes seq :: "'a::linorder list"
  assumes "seq \<noteq> []"
  shows "\<exists>r. find_lis seq = Some (Inr r) \<and> sorted_wrt (<) r \<and> subseq r seq"
  using find_lis_result[OF assms] by blast

theorem find_lis_increasing_subsequence_witness:
  "[16, 10, 17, 18, 9, 0, 2, 19 :: int] \<noteq> []
   \<and> find_lis [16, 10, 17, 18, 9, 0, 2, 19 :: int] = Some (Inr [16, 17, 18, 19])
   \<and> sorted_wrt (<) [16, 17, 18, 19 :: int]
   \<and> subseq [16, 17, 18, 19] [16, 10, 17, 18, 9, 0, 2, 19 :: int]"
proof -
  let ?seq = "[16, 10, 17, 18, 9, 0, 2, 19 :: int]"
  have h: "?seq \<noteq> []" by simp
  have v: "find_lis ?seq = Some (Inr [16, 17, 18, 19])" by code_simp
  from find_lis_increasing_subsequence[OF h]
  obtain r where r: "find_lis ?seq = Some (Inr r)" "sorted_wrt (<) r" "subseq r ?seq" by blast
  from r(1) v have "r = [16, 17, 18, 19]" by simp
  with r h v show ?thesis by blast
qed

text \<open>
  Claim C10. On every non-empty input the result never has exactly one element: it is
  empty or has at least two. \<open>best_seq_end\<close> is \<open>-1\<close> or an index whose tabulated length
  is at least 2.
\<close>

theorem find_lis_never_one_element:
  fixes seq :: "'a::linorder list"
  assumes "seq \<noteq> []"
  shows "\<exists>s r. find_lis_tables seq = Inr s
    \<and> (best_seq_end s = - 1
       \<or> (\<exists>b<length seq. best_seq_end s = int b \<and> 2 \<le> length_tab s ! b))
    \<and> find_lis seq = Some (Inr r) \<and> (r = [] \<or> 2 \<le> length r) \<and> length r \<noteq> 1"
proof -
  obtain s r where sr: "find_lis_tables seq = Inr s" "lis_inv seq (length seq) s"
      "find_lis seq = Some (Inr r)" "r = [] \<or> 2 \<le> length r"
    using find_lis_result[OF assms] by blast
  have "best_seq_end s = - 1 \<or> (\<exists>b<length seq. best_seq_end s = int b \<and> 2 \<le> length_tab s ! b)"
    using lis_inv_best[OF sr(2)] by blast
  moreover have "length r \<noteq> 1" using sr(4) by auto
  ultimately show ?thesis using sr by blast
qed

theorem find_lis_never_one_element_witness:
  "[7, 3, 5 :: int] \<noteq> [] \<and> find_lis [7, 3, 5 :: int] = Some (Inr [])
   \<and> length ([] :: int list) \<noteq> 1
   \<and> [7, 8 :: int] \<noteq> [] \<and> find_lis [7, 8 :: int] = Some (Inr [7, 8])"
proof -
  have h: "[7, 3, 5 :: int] \<noteq> []" by simp
  have v: "find_lis [7, 3, 5 :: int] = Some (Inr [])" by code_simp
  have w: "find_lis [7, 8 :: int] = Some (Inr [7, 8])" by code_simp
  from find_lis_never_one_element[OF h]
  obtain r where "find_lis [7, 3, 5 :: int] = Some (Inr r)" "length r \<noteq> 1" by blast
  with v w show ?thesis by simp
qed

section \<open>0-1 knapsack: the table is the recurrence\<close>

lemma py_index2_nat:
  "k < length S \<Longrightarrow> x < length (S ! k) \<Longrightarrow> py_index2 S (int k) (int x) = Inr (S ! k ! x)"
  by (simp add: py_index2_def py_index_nat bind_err_def)

lemma py_store2_nat:
  "k < length S \<Longrightarrow> x < length (S ! k) \<Longrightarrow>
   py_store2 S (int k) (int x) a = Inr (S[k := (S ! k)[x := a]])"
  by (simp add: py_store2_def py_index_nat py_store_nat bind_err_def)

lemma knapsack_cell_eq:
  assumes shape: "length S = n" "\<forall>r<n. length (S ! r) = m"
    and k: "1 \<le> k" "k < n" and x: "x < m"
    and w: "k < length w" "0 \<le> w ! k" and v: "k < length v"
  shows "knapsack_cell w v (int x) (int k) S =
    Inr (S[k := (S ! k)[x :=
       (if w ! k < int x \<and> S ! (k - 1) ! nat (int x - w ! k) + v ! k > S ! (k - 1) ! x
        then S ! (k - 1) ! nat (int x - w ! k) + v ! k else S ! (k - 1) ! x)]])"
proof -
  obtain k' where k': "k = Suc k'" using k(1) by (cases k) simp_all
  have pk: "k - 1 = k'" using k' by simp
  let ?base = "S ! k' ! x"
  let ?S1 = "S[k := (S ! k)[x := ?base]]"
  have km: "int k - 1 = int k'" using k' by simp
  have k1: "k' < n" "k' \<noteq> k" using k k' by simp_all
  have rows: "length (S ! k) = m" "length (S ! k') = m" using shape k k1 by simp_all
  have base: "py_index2 S (int k') (int x) = Inr ?base"
    using shape k1 x rows by (simp add: py_index2_nat)
  have st1: "py_store2 S (int k) (int x) ?base = Inr ?S1"
    using shape k x rows by (simp add: py_store2_nat)
  have wk: "py_index w (int k) = Inr (w ! k)" using w by (simp add: py_index_nat)
  have vk: "py_index v (int k) = Inr (v ! k)" using v by (simp add: py_index_nat)
  have above: "py_index ?S1 (int k') = Inr (S ! k')"
    using shape k1 by (simp add: py_index_nat)
  have cur: "py_index2 ?S1 (int k) (int x) = Inr ?base"
    using shape k x rows by (simp add: py_index2_nat)
  have st2: "py_store2 ?S1 (int k) (int x) a = Inr (S[k := (S ! k)[x := a]])" for a
    using shape k x rows by (simp add: py_store2_nat)
  show ?thesis
  proof (cases "w ! k < int x")
    case False
    then show ?thesis
      unfolding knapsack_cell_def km base st1 wk bind_err_def sum.case pk by simp
  next
    case True
    let ?c = "nat (int x - w ! k)"
    have "0 \<le> int x - w ! k" "int x - w ! k < int m" using True w x by simp_all
    then have a: "py_index (S ! k') (int x - w ! k) = Inr (S ! k' ! ?c)"
      using rows by (simp add: py_index_def)
    show ?thesis
      unfolding knapsack_cell_def km base st1 wk bind_err_def sum.case above a vk cur st2 pk
      using True by simp
  qed
qed

lemma knap_ref_col0: "knap_ref w v r 0 = 0"
  by (cases r) simp_all

lemma knapsack_cell_inv:
  assumes inv: "tab_inv w v n m x k S"
    and k: "1 \<le> k" "k < n" and x: "1 \<le> x" "x < m"
    and w: "k < length w" "0 \<le> w ! k" and v: "k < length v"
  shows "\<exists>S'. knapsack_cell w v (int x) (int k) S = Inr S' \<and> tab_inv w v n m x (Suc k) S'"
proof -
  obtain k' where k': "k = Suc k'" using k(1) by (cases k) simp_all
  have pk: "k - 1 = k'" using k' by simp
  have shape: "length S = n" "\<forall>r<n. length (S ! r) = m"
    using inv by (simp_all add: tab_inv_def)
  have cells: "S ! r ! c = (if c < x \<or> (c = x \<and> r < k) then knap_ref w v r c else 0)"
    if "r < n" "c < m" for r c
    using inv that by (simp add: tab_inv_def)
  define val where "val = (if w ! k < int x \<and> S ! (k - 1) ! nat (int x - w ! k) + v ! k > S ! (k - 1) ! x
        then S ! (k - 1) ! nat (int x - w ! k) + v ! k else S ! (k - 1) ! x)"
  let ?S' = "S[k := (S ! k)[x := val]]"
  have eq: "knapsack_cell w v (int x) (int k) S = Inr ?S'"
    unfolding val_def by (rule knapsack_cell_eq[OF shape k x(2) w v])
  have k'n: "k' < n" using k k' by simp
  have base: "S ! k' ! x = knap_ref w v k' x"
    using cells[OF k'n x(2)] k' by simp
  have incl: "S ! k' ! nat (int x - w ! k) = knap_ref w v k' (nat (int x - w ! k))"
    if "w ! k < int x"
  proof -
    have "nat (int x - w ! k) \<le> x" using w(2) by simp
    then have "nat (int x - w ! k) < m" and "nat (int x - w ! k) < x \<or> nat (int x - w ! k) = x"
      using x(2) by auto
    then show ?thesis using cells[OF k'n, of "nat (int x - w ! k)"] k' by auto
  qed
  have x0: "x \<noteq> 0" using x(1) by simp
  have val: "val = knap_ref w v k x"
  proof (cases "w ! k < int x")
    case True
    then show ?thesis
      unfolding val_def pk using incl[OF True] base x0 by (simp add: k')
  next
    case False
    then show ?thesis
      unfolding val_def pk using base x0 by (simp add: k')
  qed
  have 1: "length ?S' = n" using shape by simp
  have 2: "\<forall>r<n. length (?S' ! r) = m"
    using shape k by (auto simp: nth_list_update)
  have 3: "\<forall>r<n. \<forall>c<m. ?S' ! r ! c
      = (if c < x \<or> (c = x \<and> r < Suc k) then knap_ref w v r c else 0)"
  proof (intro allI impI)
    fix r c assume rc: "r < n" "c < m"
    show "?S' ! r ! c = (if c < x \<or> (c = x \<and> r < Suc k) then knap_ref w v r c else 0)"
    proof (cases "r = k \<and> c = x")
      case True
      then have "?S' ! r ! c = val" using shape k x by simp
      then show ?thesis using True val by simp
    next
      case False
      then have "?S' ! r ! c = S ! r ! c"
        using shape rc k by (auto simp: nth_list_update)
      then show ?thesis using cells[OF rc] False by (auto simp: less_Suc_eq)
    qed
  qed
  have "tab_inv w v n m x (Suc k) ?S'"
    unfolding tab_inv_def using 1 2 3 by blast
  with eq show ?thesis by blast
qed

lemma knapsack_column_upto:
  assumes inv: "tab_inv w v n m x 1 S"
    and x: "1 \<le> x" "x < m"
    and w: "n \<le> length w" "\<forall>k. 1 \<le> k \<and> k < n \<longrightarrow> 0 \<le> w ! k" and v: "n \<le> length v"
  shows "1 \<le> j \<Longrightarrow> j \<le> n \<Longrightarrow>
    \<exists>S'. for_loop (map int [1..<j]) (knapsack_cell w v (int x)) S = Inr S' \<and> tab_inv w v n m x j S'"
proof (induction j)
  case 0
  then show ?case by simp
next
  case (Suc j)
  show ?case
  proof (cases "j = 0")
    case True
    then show ?thesis using inv by simp
  next
    case False
    then have j: "1 \<le> j" "j < n" using Suc.prems by simp_all
    then obtain S1 where S1: "for_loop (map int [1..<j]) (knapsack_cell w v (int x)) S = Inr S1"
        "tab_inv w v n m x j S1"
      using Suc.IH by auto
    have "j < length w" "0 \<le> w ! j" "j < length v" using j w v by auto
    from knapsack_cell_inv[OF S1(2) j x this]
    obtain S2 where S2: "knapsack_cell w v (int x) (int j) S1 = Inr S2" "tab_inv w v n m x (Suc j) S2"
      by blast
    have split: "[1..<Suc j] = [1..<j] @ [j]" using j by simp
    have "for_loop (map int [1..<Suc j]) (knapsack_cell w v (int x)) S = Inr S2"
      unfolding split map_append for_loop_append S1(1) bind_err_def sum.case
      by (simp add: S2(1) bind_err_def)
    with S2(2) show ?thesis by blast
  qed
qed

lemma tab_inv_next:
  assumes "tab_inv w v n m x n' S" "n \<le> n'"
  shows "tab_inv w v n m (Suc x) 1 S"
  using assms unfolding tab_inv_def by (auto simp: less_Suc_eq)

lemma knapsack_column_inv:
  assumes inv: "tab_inv w v n m x 1 S"
    and x: "1 \<le> x" "x < m"
    and w: "n \<le> length w" "\<forall>k. 1 \<le> k \<and> k < n \<longrightarrow> 0 \<le> w ! k" and v: "n \<le> length v"
  shows "\<exists>S'. for_loop (map int [1..<n]) (knapsack_cell w v (int x)) S = Inr S'
           \<and> tab_inv w v n m (Suc x) 1 S'"
proof (cases "n = 0")
  case True
  then show ?thesis using tab_inv_next[OF inv] by simp
next
  case False
  then have "1 \<le> n" by simp
  from knapsack_column_upto[OF inv x w v this]
  obtain S' where "for_loop (map int [1..<n]) (knapsack_cell w v (int x)) S = Inr S'"
      "tab_inv w v n m x n S'"
    by blast
  then show ?thesis using tab_inv_next[of w v n m x n S'] by blast
qed

lemma knapsack_outer_upto:
  assumes inv: "tab_inv w v n m 1 1 S"
    and w: "n \<le> length w" "\<forall>k. 1 \<le> k \<and> k < n \<longrightarrow> 0 \<le> w ! k" and v: "n \<le> length v"
  shows "1 \<le> j \<Longrightarrow> j \<le> m \<Longrightarrow>
    \<exists>S'. for_loop (map int [1..<j]) (\<lambda>x. for_loop (map int [1..<n]) (knapsack_cell w v x)) S = Inr S'
       \<and> tab_inv w v n m j 1 S'"
proof (induction j)
  case 0
  then show ?case by simp
next
  case (Suc j)
  let ?body = "\<lambda>x. for_loop (map int [1..<n]) (knapsack_cell w v x)"
  show ?case
  proof (cases "j = 0")
    case True
    then show ?thesis using inv by simp
  next
    case False
    then have j: "1 \<le> j" "j < m" using Suc.prems by simp_all
    then obtain S1 where S1: "for_loop (map int [1..<j]) ?body S = Inr S1" "tab_inv w v n m j 1 S1"
      using Suc.IH by auto
    from knapsack_column_inv[OF S1(2) j w v]
    obtain S2 where S2: "?body (int j) S1 = Inr S2" "tab_inv w v n m (Suc j) 1 S2"
      by blast
    have split: "[1..<Suc j] = [1..<j] @ [j]" using j by simp
    have "for_loop (map int [1..<Suc j]) ?body S = Inr S2"
      unfolding split map_append for_loop_append S1(1) bind_err_def sum.case
      by (simp only: list.map for_loop.simps S2(1) bind_err_def sum.case)
    with S2(2) show ?thesis by blast
  qed
qed

lemma knapsack_init:
  "map (\<lambda>k. map (\<lambda>x. 0::int) (py_range 0 W)) (py_range 0 (int n)) = replicate n (replicate (nat W) 0)"
  by (simp add: py_zeros py_range_nat map_replicate_const)

lemma knapsack_unfold:
  "knapsack W w v =
     for_loop (map int [1..<nat W])
       (\<lambda>x. for_loop (map int [1..<length v]) (knapsack_cell w v x))
       (replicate (length v) (replicate (nat W) 0))"
proof -
  have a: "py_range 1 W = map int [1..<nat W]" using py_range_nat[of 1 W] by simp
  have b: "py_range 1 (int (length v)) = map int [1..<length v]"
    using py_range_nat[of 1 "int (length v)"] by simp
  show ?thesis
    unfolding knapsack_def Let_def knapsack_init a b ..
qed

lemma knapsack_table:
  assumes w: "length v \<le> length w" "\<forall>k. 1 \<le> k \<and> k < length v \<longrightarrow> 0 \<le> w ! k"
  shows "\<exists>S. knapsack W w v = Inr S \<and> length S = length v
    \<and> (\<forall>r<length v. length (S ! r) = nat W)
    \<and> (\<forall>r<length v. \<forall>c<nat W. S ! r ! c = knap_ref w v r c)"
proof -
  let ?n = "length v" and ?m = "nat W"
  let ?S0 = "replicate ?n (replicate ?m (0::int))"
  let ?body = "\<lambda>x. for_loop (map int [1..<?n]) (knapsack_cell w v x)"
  have init: "tab_inv w v ?n ?m 1 1 ?S0"
    unfolding tab_inv_def by (auto simp: knap_ref_col0)
  show ?thesis
  proof (cases "?m = 0")
    case True
    then have "knapsack W w v = Inr ?S0" by (simp add: knapsack_unfold)
    then show ?thesis using True by simp
  next
    case False
    then have "1 \<le> ?m" by simp
    from knapsack_outer_upto[OF init w order_refl this order_refl]
    obtain S where S: "for_loop (map int [1..<?m]) ?body ?S0 = Inr S" "tab_inv w v ?n ?m ?m 1 S"
      by blast
    have "knapsack W w v = Inr S" unfolding knapsack_unfold by (rule S(1))
    moreover have "length S = ?n" "\<forall>r<?n. length (S ! r) = ?m"
      "\<forall>r<?n. \<forall>c<?m. S ! r ! c = knap_ref w v r c"
      using S(2) by (simp_all add: tab_inv_def)
    ultimately show ?thesis by blast
  qed
qed

lemma for_loop_empty_body: "for_loop xs (\<lambda>x. for_loop [] (f x)) S = Inr S"
  by (induction xs) (simp_all add: bind_err_def)

lemma knapsack_trivial:
  assumes "W \<le> 1 \<or> length v \<le> 1"
  shows "knapsack W w v = Inr (replicate (length v) (replicate (nat W) 0))"
proof -
  from assms have "[1..<nat W] = [] \<or> [1..<length v] = []" by auto
  then show ?thesis
    unfolding knapsack_unfold by (auto simp: for_loop_empty_body)
qed


section \<open>0-1 knapsack: what the table holds\<close>

text \<open>
  Under the strict test a cell \<open>(k, x)\<close> with \<open>x \<ge> 1\<close> is the optimum over the items \<open>1 .. k\<close>
  at capacity \<open>x - 1\<close>, so the bottom-right cell, at column \<open>W - 1\<close>, is the optimum at capacity
  \<open>W - 2\<close>.
\<close>

lemma set_subseqs_snoc:
  "set (subseqs (xs @ [a])) = set (subseqs xs) \<union> (\<lambda>s. s @ [a]) ` set (subseqs xs)"
  by (induction xs) (auto simp: Let_def image_Un image_image)

lemma best_value_alt:
  "best_value c xs = Max ((\<lambda>s. sum_list (map snd s)) ` {s \<in> set (subseqs xs). sum_list (map fst s) \<le> c})"
  by (simp add: best_value_def)

lemma subseqs_weight_nonneg:
  fixes xs :: "(int \<times> int) list"
  assumes "\<forall>it\<in>set xs. 0 \<le> fst it" "s \<in> set (subseqs xs)"
  shows "0 \<le> sum_list (map fst s)"
proof -
  have "set s \<subseteq> set xs" using assms(2) subseqs_powset[of xs] by blast
  then have "\<forall>it\<in>set s. 0 \<le> fst it" using assms(1) by blast
  then show ?thesis by (induction s) auto
qed

lemma best_value_snoc:
  assumes nn: "\<forall>it\<in>set xs. 0 \<le> fst it" and c: "0 \<le> c" and wt: "0 \<le> wt"
  shows "best_value c (xs @ [(wt, vl)]) =
    (if wt \<le> c then max (best_value c xs) (best_value (c - wt) xs + vl) else best_value c xs)"
proof -
  let ?weight = "\<lambda>s::(int \<times> int) list. sum_list (map fst s)"
  let ?worth = "\<lambda>s::(int \<times> int) list. sum_list (map snd s)"
  let ?F = "\<lambda>c. {s \<in> set (subseqs xs). ?weight s \<le> c}"
  have split: "{s \<in> set (subseqs (xs @ [(wt, vl)])). ?weight s \<le> c}
      = ?F c \<union> (\<lambda>s. s @ [(wt, vl)]) ` ?F (c - wt)"
    unfolding set_subseqs_snoc by auto
  have vals: "?worth ` {s \<in> set (subseqs (xs @ [(wt, vl)])). ?weight s \<le> c}
      = ?worth ` ?F c \<union> (\<lambda>y. y + vl) ` ?worth ` ?F (c - wt)"
    unfolding split by (simp add: image_Un image_image)
  have fin: "finite (?worth ` ?F d)" for d
    by (rule finite_imageI) (rule finite_subset[of _ "set (subseqs xs)"], blast, rule finite_set)
  have ne: "?worth ` ?F d \<noteq> {}" if "0 \<le> d" for d
  proof -
    have "[] \<in> set (subseqs xs)" by (induction xs) (auto simp: Let_def)
    then have "[] \<in> ?F d" using that by simp
    then show ?thesis by blast
  qed
  show ?thesis
  proof (cases "wt \<le> c")
    case True
    then have d: "0 \<le> c - wt" by simp
    have "Max (?worth ` ?F c \<union> (\<lambda>y. y + vl) ` ?worth ` ?F (c - wt))
        = max (Max (?worth ` ?F c)) (Max ((\<lambda>y. y + vl) ` ?worth ` ?F (c - wt)))"
      using fin ne[OF c] ne[OF d] by (intro Max_Un) simp_all
    also have "Max ((\<lambda>y. y + vl) ` ?worth ` ?F (c - wt)) = Max (?worth ` ?F (c - wt)) + vl"
      using Max_add_commute[OF fin ne[OF d], of "\<lambda>y. y" vl] by simp
    finally show ?thesis
      using True unfolding best_value_alt vals by simp
  next
    case False
    have "?F (c - wt) = {}"
      using subseqs_weight_nonneg[OF nn] False by fastforce
    then have "?worth ` ?F c \<union> (\<lambda>y. y + vl) ` ?worth ` ?F (c - wt) = ?worth ` ?F c"
      by (simp only: image_empty Un_empty_right)
    then show ?thesis
      using False unfolding best_value_alt vals by (simp only: if_False)
  qed
qed

lemma knap_ref_optimum:
  assumes "k < length v" "k < length w" "\<forall>j. 1 \<le> j \<and> j \<le> k \<longrightarrow> 0 \<le> w ! j" "1 \<le> x"
  shows "knap_ref w v k x = best_value (int x - 1) (take k (drop 1 (zip w v)))"
  using assms
proof (induction k arbitrary: x)
  case 0
  then show ?case by (simp add: best_value_def)
next
  case (Suc k)
  let ?zs = "zip w v"
  let ?xs = "take k (drop 1 ?zs)"
  let ?wt = "w ! Suc k" and ?vl = "v ! Suc k"
  have len: "Suc k < length ?zs" using Suc.prems by simp
  have kd: "k < length (drop 1 ?zs)" using len by (simp add: min_def)
  have "drop 1 ?zs ! k = ?zs ! Suc k" using len by simp
  also have "\<dots> = (?wt, ?vl)" using len by simp
  finally have items: "take (Suc k) (drop 1 ?zs) = ?xs @ [(?wt, ?vl)]"
    using take_Suc_conv_app_nth[OF kd] by simp
  have nn: "\<forall>it\<in>set ?xs. 0 \<le> fst it"
  proof
    fix it assume "it \<in> set ?xs"
    then obtain j where j: "j < length ?xs" "it = ?xs ! j" by (auto simp: in_set_conv_nth)
    then have jk: "j < k" by simp
    then have "it = ?zs ! Suc j" using j len by simp
    then have "fst it = w ! Suc j" using jk len by simp
    then show "0 \<le> fst it" using Suc.prems(3) jk by simp
  qed
  have wt: "0 \<le> ?wt" using Suc.prems(3) by simp
  have c: "0 \<le> int x - 1" using Suc.prems(4) by simp
  have x0: "x \<noteq> 0" using Suc.prems(4) by simp
  have pre: "k < length v" "k < length w" "\<forall>j. 1 \<le> j \<and> j \<le> k \<longrightarrow> 0 \<le> w ! j"
    using Suc.prems by simp_all
  have ih1: "knap_ref w v k x = best_value (int x - 1) ?xs"
    using Suc.IH[OF pre Suc.prems(4)] .
  have bv: "best_value (int x - 1) (?xs @ [(?wt, ?vl)]) =
    (if ?wt \<le> int x - 1 then max (best_value (int x - 1) ?xs) (best_value (int x - 1 - ?wt) ?xs + ?vl)
     else best_value (int x - 1) ?xs)"
    by (rule best_value_snoc[OF nn c wt])
  show ?case
  proof (cases "?wt < int x")
    case True
    then have "1 \<le> nat (int x - ?wt)" by simp
    from Suc.IH[OF pre this]
    have ih2: "knap_ref w v k (nat (int x - ?wt)) = best_value (int x - 1 - ?wt) ?xs"
      using True by (simp add: algebra_simps)
    show ?thesis
      unfolding items bv using True x0 ih1 ih2 by (simp add: max_def)
  next
    case False
    then show ?thesis
      unfolding items bv using x0 ih1 by simp
  qed
qed

lemma knapsack_bottom_right:
  assumes w: "length v \<le> length w" "\<forall>k. 1 \<le> k \<and> k < length v \<longrightarrow> 0 \<le> w ! k"
    and sz: "2 \<le> W" "v \<noteq> []"
  shows "\<exists>S. knapsack W w v = Inr S
    \<and> S ! (length v - 1) ! (nat W - 1) = brute_force_optimum (W - 2) w v"
proof -
  let ?n = "length v"
  obtain S where S: "knapsack W w v = Inr S"
      "\<forall>r<?n. \<forall>c<nat W. S ! r ! c = knap_ref w v r c"
    using knapsack_table[OF w] by blast
  have n: "?n - 1 < ?n" using sz(2) by simp
  have x: "nat W - 1 < nat W" "1 \<le> nat W - 1" using sz(1) by simp_all
  have "S ! (?n - 1) ! (nat W - 1) = knap_ref w v (?n - 1) (nat W - 1)"
    using S(2) n x(1) by blast
  also have "\<dots> = best_value (int (nat W - 1) - 1) (take (?n - 1) (drop 1 (zip w v)))"
    using n w by (intro knap_ref_optimum x(2)) auto
  also have "int (nat W - 1) - 1 = W - 2" using sz(1) by simp
  also have "take (?n - 1) (drop 1 (zip w v)) = drop 1 (zip w v)"
    using w(1) by simp
  finally show ?thesis using S(1) by (auto simp: brute_force_optimum_def)
qed


section \<open>0-1 knapsack: the claims\<close>

text \<open>
  Claim C3 fails on the code. The bottom-right cell is not the optimum at capacity \<open>W\<close>:
  with capacity 2 and one item of weight 1 and value 10 (after the boundary row) the
  table is all 0, where the item fits and the optimum is 10. On the notebook's own call,
  capacity 15 and weights \<open>[3, 9, 3, 6, 5]\<close>, the cell is 149, where the items of index
  2, 3 and 4 weigh 14, fit, and are worth 165. The table has the columns \<open>0 .. W - 1\<close>
  only, and the test \<open>w[k] < x\<close> is strict.
\<close>

theorem knapsack_misses_optimum:
  "knapsack 2 [0, 1] [0, 10] = Inr [[0, 0], [0, 0]]
   \<and> brute_force_optimum 2 [0, 1] [0, 10] = 10
   \<and> knapsack 15 [3, 9, 3, 6, 5] [40, 45, 72, 77, 16] =
       Inr [[0, 0, 0, 0, 0, 0, 0, 0, 0, 0, 0, 0, 0, 0, 0],
            [0, 0, 0, 0, 0, 0, 0, 0, 0, 0, 45, 45, 45, 45, 45],
            [0, 0, 0, 0, 72, 72, 72, 72, 72, 72, 72, 72, 72, 117, 117],
            [0, 0, 0, 0, 72, 72, 72, 77, 77, 77, 149, 149, 149, 149, 149],
            [0, 0, 0, 0, 72, 72, 72, 77, 77, 88, 149, 149, 149, 149, 149]]
   \<and> brute_force_optimum 15 [3, 9, 3, 6, 5] [40, 45, 72, 77, 16] = 165"
proof -
  have "knapsack 2 [0, 1] [0, 10] = Inr [[0, 0], [0, 0]]" by code_simp
  moreover have "brute_force_optimum 2 [0, 1] [0, 10] = 10" by code_simp
  moreover have "knapsack 15 [3, 9, 3, 6, 5] [40, 45, 72, 77, 16] =
       Inr [[0, 0, 0, 0, 0, 0, 0, 0, 0, 0, 0, 0, 0, 0, 0],
            [0, 0, 0, 0, 0, 0, 0, 0, 0, 0, 45, 45, 45, 45, 45],
            [0, 0, 0, 0, 72, 72, 72, 72, 72, 72, 72, 72, 72, 117, 117],
            [0, 0, 0, 0, 72, 72, 72, 77, 77, 77, 149, 149, 149, 149, 149],
            [0, 0, 0, 0, 72, 72, 72, 77, 77, 88, 149, 149, 149, 149, 149]]"
    by code_simp
  moreover have "brute_force_optimum 15 [3, 9, 3, 6, 5] [40, 45, 72, 77, 16] = 165"
    by code_simp
  ultimately show ?thesis by blast
qed

text \<open>
  Claim C5. When \<open>v\<close> is no longer than \<open>w\<close> and the weights of the items (index 1 and
  above) are non-negative, \<open>knapsack\<close> returns a table in which every cell \<open>(k, x)\<close> with
  \<open>k \<ge> 1\<close> and \<open>x \<ge> 1\<close> includes item \<open>k\<close> only when its weight is strictly less than \<open>x\<close>
  and the including value is strictly better; otherwise, and so whenever the weight
  equals or exceeds \<open>x\<close>, the cell is the one above it.
\<close>

theorem knapsack_strict_capacity_test:
  assumes "length v \<le> length w" and "\<forall>k. 1 \<le> k \<and> k < length v \<longrightarrow> 0 \<le> w ! k"
  shows "\<exists>S. knapsack W w v = Inr S
    \<and> (\<forall>k x. 1 \<le> k \<and> k < length v \<and> 1 \<le> x \<and> int x < W \<longrightarrow>
          S ! k ! x =
            (if w ! k < int x \<and> S ! (k - 1) ! nat (int x - w ! k) + v ! k > S ! (k - 1) ! x
             then S ! (k - 1) ! nat (int x - w ! k) + v ! k
             else S ! (k - 1) ! x)
          \<and> (int x \<le> w ! k \<longrightarrow> S ! k ! x = S ! (k - 1) ! x))"
proof -
  obtain S where S: "knapsack W w v = Inr S"
      "\<forall>r<length v. \<forall>c<nat W. S ! r ! c = knap_ref w v r c"
    using knapsack_table[OF assms] by blast
  have cell: "S ! k ! x =
            (if w ! k < int x \<and> S ! (k - 1) ! nat (int x - w ! k) + v ! k > S ! (k - 1) ! x
             then S ! (k - 1) ! nat (int x - w ! k) + v ! k
             else S ! (k - 1) ! x)"
    if kx: "1 \<le> k" "k < length v" "1 \<le> x" "int x < W" for k x
  proof -
    obtain k' where k': "k = Suc k'" using kx(1) by (cases k) simp_all
    have xW: "x < nat W" using kx(4) by simp
    have k'n: "k' < length v" using kx(2) k' by simp
    have a: "S ! k ! x = knap_ref w v (Suc k') x" using S(2) kx(2) xW k' by simp
    have b: "S ! k' ! x = knap_ref w v k' x" using S(2) k'n xW by simp
    have c: "S ! k' ! nat (int x - w ! k) = knap_ref w v k' (nat (int x - w ! k))"
      if "w ! k < int x"
    proof -
      have "0 \<le> w ! k" using assms(2) kx by simp
      then have "nat (int x - w ! k) < nat W" using xW kx(4) by linarith
      then show ?thesis using S(2) k'n by simp
    qed
    have x0: "x \<noteq> 0" using kx(3) by simp
    show ?thesis
    proof (cases "w ! k < int x")
      case True
      show ?thesis using True c[OF True] a b x0 by (simp add: k')
    next
      case False
      then show ?thesis using a b x0 by (simp add: k')
    qed
  qed
  have "\<forall>k x. 1 \<le> k \<and> k < length v \<and> 1 \<le> x \<and> int x < W \<longrightarrow>
          S ! k ! x =
            (if w ! k < int x \<and> S ! (k - 1) ! nat (int x - w ! k) + v ! k > S ! (k - 1) ! x
             then S ! (k - 1) ! nat (int x - w ! k) + v ! k
             else S ! (k - 1) ! x)
          \<and> (int x \<le> w ! k \<longrightarrow> S ! k ! x = S ! (k - 1) ! x)"
  proof (intro allI impI)
    fix k x assume kx: "1 \<le> k \<and> k < length v \<and> 1 \<le> x \<and> int x < W"
    then have c: "S ! k ! x =
            (if w ! k < int x \<and> S ! (k - 1) ! nat (int x - w ! k) + v ! k > S ! (k - 1) ! x
             then S ! (k - 1) ! nat (int x - w ! k) + v ! k
             else S ! (k - 1) ! x)"
      using cell by blast
    moreover have "int x \<le> w ! k \<longrightarrow> S ! k ! x = S ! (k - 1) ! x"
      using c by simp
    ultimately show "S ! k ! x =
            (if w ! k < int x \<and> S ! (k - 1) ! nat (int x - w ! k) + v ! k > S ! (k - 1) ! x
             then S ! (k - 1) ! nat (int x - w ! k) + v ! k
             else S ! (k - 1) ! x)
          \<and> (int x \<le> w ! k \<longrightarrow> S ! k ! x = S ! (k - 1) ! x)"
      by blast
  qed
  with S(1) show ?thesis by blast
qed

theorem knapsack_strict_capacity_test_witness:
  "length [0, 10, 7 :: int] \<le> length [0, 2, 3 :: int]
   \<and> 0 \<le> [0, 2, 3 :: int] ! 1 \<and> 0 \<le> [0, 2, 3 :: int] ! 2
   \<and> knapsack 4 [0, 2, 3] [0, 10, 7] = Inr [[0, 0, 0, 0], [0, 0, 0, 10], [0, 0, 0, 10]]
   \<and> (\<exists>S. knapsack 4 [0, 2, 3] [0, 10, 7] = Inr S \<and> S ! 2 ! 3 = S ! 1 ! 3)"
proof -
  have h1: "length [0, 10, 7 :: int] \<le> length [0, 2, 3 :: int]" by simp
  have h2: "\<forall>k. 1 \<le> k \<and> k < length [0, 10, 7 :: int] \<longrightarrow> 0 \<le> [0, 2, 3 :: int] ! k"
    by (auto simp: nth_Cons' less_Suc_eq numeral_3_eq_3)
  have t: "knapsack 4 [0, 2, 3] [0, 10, 7] = Inr [[0, 0, 0, 0], [0, 0, 0, 10], [0, 0, 0, 10]]"
    by code_simp
  from knapsack_strict_capacity_test[OF h1 h2, of 4]
  obtain S where S: "knapsack 4 [0, 2, 3] [0, 10, 7] = Inr S"
    "\<forall>k x. 1 \<le> k \<and> k < length [0, 10, 7 :: int] \<and> 1 \<le> x \<and> int x < 4 \<longrightarrow>
          S ! k ! x =
            (if [0, 2, 3] ! k < int x \<and> S ! (k - 1) ! nat (int x - [0, 2, 3] ! k) + [0, 10, 7] ! k > S ! (k - 1) ! x
             then S ! (k - 1) ! nat (int x - [0, 2, 3] ! k) + [0, 10, 7] ! k
             else S ! (k - 1) ! x)
          \<and> (int x \<le> [0, 2, 3] ! k \<longrightarrow> S ! k ! x = S ! (k - 1) ! x)"
    by blast
  have "1 \<le> (2::nat) \<and> 2 < length [0, 10, 7 :: int] \<and> 1 \<le> (3::nat) \<and> int 3 < 4" by simp
  with S(2) have "int 3 \<le> [0, 2, 3 :: int] ! 2 \<longrightarrow> S ! 2 ! 3 = S ! (2 - 1) ! 3" by blast
  then have "S ! 2 ! 3 = S ! 1 ! 3" by simp
  moreover have "0 \<le> [0, 2, 3 :: int] ! 1 \<and> 0 \<le> [0, 2, 3 :: int] ! 2" by simp
  ultimately show ?thesis using S(1) h1 t by blast
qed

text \<open>
  Claim C6 as stated fails: \<open>knapsack\<close> checks none of its arguments. With lists of
  different lengths, with a negative value, with a negative capacity, and with a negative
  weight at index 0 or under a capacity of 1, it returns a table; with a negative weight
  elsewhere it fails only once the loops read a column out of range, with \<open>IndexError\<close>.
\<close>

theorem knapsack_validation_counterexample:
  "knapsack 3 [0, 1, 7, 7] [0, 5] = Inr [[0, 0, 0], [0, 0, 5]]
   \<and> knapsack 3 [0, 1] [0, - 5] = Inr [[0, 0, 0], [0, 0, 0]]
   \<and> knapsack (- 1) [0, 1] [0, 5] = Inr [[], []]
   \<and> knapsack 3 [- 4, 1] [0, 5] = Inr [[0, 0, 0], [0, 0, 5]]
   \<and> knapsack 1 [0, - 1] [0, 1] = Inr [[0], [0]]
   \<and> knapsack 3 [0, - 1] [0, 1] = Inl IndexError"
proof -
  have "knapsack 3 [0, 1, 7, 7] [0, 5] = Inr [[0, 0, 0], [0, 0, 5]]" by code_simp
  moreover have "knapsack 3 [0, 1] [0, - 5] = Inr [[0, 0, 0], [0, 0, 0]]" by code_simp
  moreover have "knapsack (- 1) [0, 1] [0, 5] = Inr [[], []]" by code_simp
  moreover have "knapsack 3 [- 4, 1] [0, 5] = Inr [[0, 0, 0], [0, 0, 5]]" by code_simp
  moreover have "knapsack 1 [0, - 1] [0, 1] = Inr [[0], [0]]" by code_simp
  moreover have "knapsack 3 [0, - 1] [0, 1] = Inl IndexError" by code_simp
  ultimately show ?thesis by blast
qed

text \<open>
  Claim C6, as the code has it. \<open>knapsack\<close> has no validation and no \<open>InvalidArgument\<close>
  failure. It returns a table of \<open>len(v)\<close> rows of \<open>max(W, 0)\<close> columns whenever \<open>v\<close> is no
  longer than \<open>w\<close> and the weights at the indices \<open>1 .. len(v) - 1\<close> are non-negative,
  whatever the capacity and the values, negative ones included; and whenever \<open>W \<le> 1\<close> or
  \<open>v\<close> has at most one entry, whatever the lists. So it can fail, with the \<open>IndexError\<close>
  of a list index, only when \<open>w\<close> is shorter than \<open>v\<close> or a weight is negative.
\<close>

theorem knapsack_no_validation:
  assumes "(length v \<le> length w \<and> (\<forall>k. 1 \<le> k \<and> k < length v \<longrightarrow> 0 \<le> w ! k))
           \<or> W \<le> 1 \<or> length v \<le> 1"
  shows "\<exists>S. knapsack W w v = Inr S \<and> length S = length v
           \<and> (\<forall>r<length v. length (S ! r) = nat W)"
  using assms
proof
  assume "length v \<le> length w \<and> (\<forall>k. 1 \<le> k \<and> k < length v \<longrightarrow> 0 \<le> w ! k)"
  then show ?thesis using knapsack_table[of v w W] by blast
next
  assume "W \<le> 1 \<or> length v \<le> 1"
  then show ?thesis using knapsack_trivial[of W v w] by simp
qed

theorem knapsack_no_validation_witness:
  "length [0, - 5 :: int] \<le> length [0, 1, 7, 7 :: int] \<and> 0 \<le> [0, 1, 7, 7 :: int] ! 1
   \<and> knapsack 3 [0, 1, 7, 7] [0, - 5] = Inr [[0, 0, 0], [0, 0, 0]]
   \<and> (\<exists>S. knapsack 3 [0, 1, 7, 7] [0, - 5] = Inr S \<and> length S = 2 \<and> length (S ! 1) = 3)"
proof -
  have h: "(length [0, - 5 :: int] \<le> length [0, 1, 7, 7 :: int]
      \<and> (\<forall>k. 1 \<le> k \<and> k < length [0, - 5 :: int] \<longrightarrow> 0 \<le> [0, 1, 7, 7 :: int] ! k))
    \<or> (3::int) \<le> 1 \<or> length [0, - 5 :: int] \<le> 1"
    by (auto simp: nth_Cons' less_Suc_eq)
  have t: "knapsack 3 [0, 1, 7, 7] [0, - 5] = Inr [[0, 0, 0], [0, 0, 0]]" by code_simp
  from knapsack_no_validation[OF h]
  obtain S where S: "knapsack 3 [0, 1, 7, 7] [0, - 5] = Inr S" "length S = length [0, - 5 :: int]"
      "\<forall>r<length [0, - 5 :: int]. length (S ! r) = nat 3"
    by blast
  have "length S = 2" using S(2) by simp
  moreover have "length (S ! 1) = 3" using S(3) by simp
  moreover have "length [0, - 5 :: int] \<le> length [0, 1, 7, 7 :: int] \<and> 0 \<le> [0, 1, 7, 7 :: int] ! 1"
    by simp
  ultimately show ?thesis using S(1) t by blast
qed

end
